theory Spec2Isabelle
  imports Complex_Main "HOL-Library.Word" "HOL-Library.List_Lexorder" "HOL-Library.Char_ord"
begin

section \<open>Numbers\<close>

text \<open>
  A JavaScript Number is an IEEE 754 double. A finite double is modelled by the real it
  denotes, beside the three non-finite values. The result of an arithmetic operation on
  finite operands is the exact real result rounded to the nearest double, ties to the even
  significand, and infinite when the rounded magnitude reaches \<open>2 ^ 1024\<close>: this is the
  function \<open>fl\<close>. The sign of zero is not modelled: a zero divisor counts as positive
  zero.
\<close>

datatype jsnum = Fin real | PosInf | NegInf | NaN

text \<open>The nearest integer, a tie going to the even one.\<close>

definition round_even :: "real \<Rightarrow> int" where
  "round_even t =
     (let f = \<lfloor>t\<rfloor>
      in if t - of_int f < 1 / 2 then f
         else if 1 / 2 < t - of_int f then f + 1
         else if even f then f else f + 1)"

text \<open>
  The binary exponent of a positive real as a double stores it: at least \<open>- 1022\<close>, the
  exponent of the subnormal numbers.
\<close>

definition expo :: "real \<Rightarrow> int" where
  "expo a = max \<lfloor>log 2 a\<rfloor> (- 1022)"

text \<open>
  Rounding to a double: the significand has 53 bits, so the spacing of the doubles around
  \<open>x\<close> is \<open>2 powi (expo \<bar>x\<bar> - 52)\<close>.
\<close>

definition fl :: "real \<Rightarrow> jsnum" where
  "fl x =
     (if x = 0 then Fin 0
      else let a = \<bar>x\<bar>;
               q = 2 powi (expo a - 52);
               y = of_int (round_even (a / q)) * q
           in if 2 ^ 1024 \<le> y then (if 0 < x then PosInf else NegInf)
              else Fin (if 0 < x then y else - y))"

fun js_neg :: "jsnum \<Rightarrow> jsnum" where
  "js_neg (Fin x) = Fin (- x)"
| "js_neg PosInf = NegInf"
| "js_neg NegInf = PosInf"
| "js_neg NaN = NaN"

text \<open>The sign of a number as the arithmetic of infinities reads it (0 for zero and NaN).\<close>

fun js_sign :: "jsnum \<Rightarrow> int" where
  "js_sign (Fin x) = (if x < 0 then - 1 else if x = 0 then 0 else 1)"
| "js_sign PosInf = 1"
| "js_sign NegInf = - 1"
| "js_sign NaN = 0"

definition js_inf :: "int \<Rightarrow> jsnum" where
  "js_inf s = (if s = 0 then NaN else if 0 < s then PosInf else NegInf)"

text \<open>\<^verbatim>\<open>a + b\<close>\<close>

fun js_add :: "jsnum \<Rightarrow> jsnum \<Rightarrow> jsnum" where
  "js_add (Fin x) (Fin y) = fl (x + y)"
| "js_add NaN b = NaN"
| "js_add a NaN = NaN"
| "js_add PosInf NegInf = NaN"
| "js_add NegInf PosInf = NaN"
| "js_add PosInf b = PosInf"
| "js_add a PosInf = PosInf"
| "js_add NegInf b = NegInf"
| "js_add a NegInf = NegInf"

text \<open>\<^verbatim>\<open>a - b\<close>\<close>

definition js_sub :: "jsnum \<Rightarrow> jsnum \<Rightarrow> jsnum" where
  "js_sub a b = js_add a (js_neg b)"

text \<open>\<^verbatim>\<open>a * b\<close>\<close>

fun js_mul :: "jsnum \<Rightarrow> jsnum \<Rightarrow> jsnum" where
  "js_mul (Fin x) (Fin y) = fl (x * y)"
| "js_mul NaN b = NaN"
| "js_mul a NaN = NaN"
| "js_mul a b = js_inf (js_sign a * js_sign b)"

text \<open>\<^verbatim>\<open>a / b\<close>\<close>

fun js_div :: "jsnum \<Rightarrow> jsnum \<Rightarrow> jsnum" where
  "js_div (Fin x) (Fin y) = (if y = 0 then js_inf (js_sign (Fin x)) else fl (x / y))"
| "js_div NaN b = NaN"
| "js_div a NaN = NaN"
| "js_div (Fin x) b = Fin 0"
| "js_div a (Fin y) = js_inf (js_sign a * (if y < 0 then - 1 else 1))"
| "js_div a b = NaN"

text \<open>\<^verbatim>\<open>a < b\<close>: false as soon as one side is NaN.\<close>

fun js_lt :: "jsnum \<Rightarrow> jsnum \<Rightarrow> bool" where
  "js_lt (Fin x) (Fin y) = (x < y)"
| "js_lt NaN b = False"
| "js_lt a NaN = False"
| "js_lt a NegInf = False"
| "js_lt PosInf b = False"
| "js_lt a b = True"

text \<open>\<^verbatim>\<open>a > b\<close>\<close>

definition js_gt :: "jsnum \<Rightarrow> jsnum \<Rightarrow> bool" where
  "js_gt a b = js_lt b a"

text \<open>\<^verbatim>\<open>Math.max(a, b)\<close>\<close>

definition js_max :: "jsnum \<Rightarrow> jsnum \<Rightarrow> jsnum" where
  "js_max a b = (if a = NaN \<or> b = NaN then NaN else if js_lt a b then b else a)"

text \<open>\<^verbatim>\<open>Math.sqrt(a)\<close>, the square root rounded to the nearest double, as IEEE 754 has it.\<close>

fun js_sqrt :: "jsnum \<Rightarrow> jsnum" where
  "js_sqrt (Fin x) = (if x < 0 then NaN else fl (sqrt x))"
| "js_sqrt PosInf = PosInf"
| "js_sqrt NegInf = NaN"
| "js_sqrt NaN = NaN"

text \<open>
  \<^verbatim>\<open>a ** 2\<close>. The language leaves the accuracy of \<^verbatim>\<open>**\<close> to the implementation; the
  square is taken as correctly rounded, so that a square that is a double is returned
  exactly.
\<close>

fun js_sq :: "jsnum \<Rightarrow> jsnum" where
  "js_sq (Fin x) = fl (x\<^sup>2)"
| "js_sq PosInf = PosInf"
| "js_sq NegInf = PosInf"
| "js_sq NaN = NaN"

section \<open>Performance analytics (history.js)\<close>

text \<open>
  The objects of the series carry a date and one number. The date strings are the values
  of the type parameter, ordered as \<^verbatim>\<open>localeCompare\<close> orders them.
\<close>

record 'd dated =
  date :: 'd

record 'd point = "'d dated" +
  equity :: jsnum

record 'd retpoint = "'d dated" +
  ret :: jsnum

record 'd vpoint = "'d dated" +
  v :: jsnum

record 'd ddpoint = "'d dated" +
  dd :: jsnum

text \<open>
  \<^verbatim>\<open>const mean = (arr) => arr.reduce((a,b)=>a+b,0) / (arr.length || 1);\<close>
\<close>

definition mean :: "jsnum list \<Rightarrow> jsnum" where
  "mean arr = js_div (foldl js_add (Fin 0) arr)
                     (Fin (real (if length arr = 0 then 1 else length arr)))"

text \<open>
  \<^verbatim>\<open>const std = (arr) => { const m = mean(arr); return Math.sqrt(mean(arr.map(x => (x-m)**2))); };\<close>
\<close>

definition std :: "jsnum list \<Rightarrow> jsnum" where
  "std arr = (let m = mean arr in js_sqrt (mean (map (\<lambda>x. js_sq (js_sub x m)) arr)))"

text \<open>
  The loop of the daily returns, lines 78 to 83: the accumulator is the array
  \<^verbatim>\<open>returns\<close>, one push for each index.
\<close>

definition returns_step :: "'d point list \<Rightarrow> 'd retpoint list \<Rightarrow> nat \<Rightarrow> 'd retpoint list" where
  "returns_step s returns i =
     (if i = 0 then returns @ [\<lparr>date = date (s ! i), ret = Fin 0\<rparr>]
      else let r = js_sub (js_div (equity (s ! i)) (equity (s ! (i - 1)))) (Fin 1)
           in returns @ [\<lparr>date = date (s ! i), ret = r\<rparr>])"

definition daily_returns :: "'d point list \<Rightarrow> 'd retpoint list" where
  "daily_returns s = foldl (returns_step s) [] [0..<length s]"

text \<open>The loop of the wealth index, lines 86 to 91.\<close>

definition vami_step ::
  "'d point list \<Rightarrow> 'd retpoint list \<Rightarrow> 'd vpoint list \<Rightarrow> nat \<Rightarrow> 'd vpoint list" where
  "vami_step s returns vami i =
     (if i = 0 then vami @ [\<lparr>date = date (s ! i), v = Fin 1000\<rparr>]
      else let prev = v (vami ! (i - 1))
           in vami @ [\<lparr>date = date (s ! i), v = js_mul prev (js_add (Fin 1) (ret (returns ! i)))\<rparr>])"

definition vami_loop :: "'d point list \<Rightarrow> 'd retpoint list \<Rightarrow> 'd vpoint list" where
  "vami_loop s returns = foldl (vami_step s returns) [] [0..<length s]"

text \<open>
  The loop of the drawdown, lines 94 to 102. Its state is the array \<^verbatim>\<open>drawdown\<close>,
  the running \<^verbatim>\<open>peak\<close> and the record \<^verbatim>\<open>maxDD\<close>.
\<close>

definition dd_step ::
  "'d vpoint list \<Rightarrow> 'd ddpoint list \<times> jsnum \<times> 'd ddpoint \<Rightarrow> nat
     \<Rightarrow> 'd ddpoint list \<times> jsnum \<times> 'd ddpoint" where
  "dd_step vami st i =
     (case st of (drawdown, peak, maxDD) \<Rightarrow>
        let peak' = js_max peak (v (vami ! i));
            d = js_sub (js_div (v (vami ! i)) peak') (Fin 1);
            drawdown' = drawdown @ [\<lparr>date = date (vami ! i), dd = d\<rparr>]
        in (drawdown', peak',
            if js_lt d (dd maxDD) then \<lparr>date = date (vami ! i), dd = d\<rparr> else maxDD))"

definition dd_loop ::
  "'d point list \<Rightarrow> 'd vpoint list \<Rightarrow> 'd ddpoint list \<times> jsnum \<times> 'd ddpoint" where
  "dd_loop s vami =
     foldl (dd_step vami) ([], v (vami ! 0), \<lparr>date = date (s ! 0), dd = Fin 0\<rparr>)
       [0..<length vami]"

text \<open>
  The statistics. The fields \<^verbatim>\<open>annual_return\<close> (a power with a real exponent) and
  \<^verbatim>\<open>ytd\<close> (which reads the clock) are left out of the record; nothing else depends
  on them.
\<close>

record stats =
  since_inception :: jsnum
  annual_vol :: jsnum
  sharpe :: jsnum
  max_drawdown :: jsnum
  days :: nat

definition compute_stats :: "'d point list \<Rightarrow> 'd retpoint list \<Rightarrow> 'd ddpoint \<Rightarrow> stats" where
  "compute_stats s returns maxDD =
     (let rets = map ret (drop 1 returns);
          n = length rets;
          avg = mean rets;
          volAnn = js_mul (std rets) (js_sqrt (Fin 252));
          sharpe = (if js_gt volAnn (Fin 0) then js_div (js_mul avg (Fin 252)) volAnn else Fin 0);
          last = equity (s ! (length s - 1))
      in \<lparr>since_inception = js_sub (js_div last (equity (s ! 0))) (Fin 1),
          annual_vol = volAnn,
          sharpe = sharpe,
          max_drawdown = dd maxDD,
          days = n\<rparr>)"

text \<open>The result object; \<^verbatim>\<open>stats: {}\<close> of the empty case is \<open>None\<close>.\<close>

record 'd performance =
  series :: "'d point list"
  returns :: "'d retpoint list"
  vami :: "'d vpoint list"
  drawdown :: "'d ddpoint list"
  stats :: "stats option"

text \<open>Everything after the sort, lines 77 to 135, on the sorted copy \<open>s\<close>.\<close>

definition analyse :: "'d point list \<Rightarrow> 'd performance" where
  "analyse s =
     (let rets = daily_returns s;
          vs = vami_loop s rets;
          (dds, peak, maxDD) = dd_loop s vs
      in \<lparr>series = s, returns = rets, vami = vs, drawdown = dds,
          stats = Some (compute_stats s rets maxDD)\<rparr>)"

text \<open>
  \<^verbatim>\<open>[...series].sort((a,b) => a.date.localeCompare(b.date))\<close>: a stable sort of a copy.
\<close>

definition sort_by_date :: "('d::linorder) point list \<Rightarrow> 'd point list" where
  "sort_by_date input = sort_key date input"

definition computePerformance :: "('d::linorder) point list \<Rightarrow> 'd performance" where
  "computePerformance input =
     (if length input = 0
      then \<lparr>series = [], returns = [], vami = [], drawdown = [], stats = None\<rparr>
      else analyse (sort_by_date input))"

section \<open>JSON values\<close>

text \<open>
  A parsed JSON value. The members of an object are listed in the order in which
  \<^verbatim>\<open>Object.keys\<close> enumerates them; a lookup takes the first entry of a key. The value
  \<^verbatim>\<open>undefined\<close> is \<open>None\<close> of \<open>json option\<close>.
\<close>

datatype json =
  JNull | JBool bool | JNum jsnum | JStr string | JArr "json list" | JObj "(string \<times> json) list"

text \<open>The exceptions of the program: the built-in classes and \<^verbatim>\<open>new Error(message)\<close>.\<close>

datatype error = Error string | TypeError | SyntaxError | RangeError | AbortError

text \<open>
  \<^verbatim>\<open>x.k\<close> for a non-null \<open>x\<close> and one of the member names the program reads
  (\<^verbatim>\<open>as_of_utc\<close>, \<^verbatim>\<open>payload\<close>, \<^verbatim>\<open>accounts\<close>, \<^verbatim>\<open>NetLiquidation\<close>, \<^verbatim>\<open>value\<close>,
  \<^verbatim>\<open>sha256\<close>): only an object can have such a member.
\<close>

fun get :: "json \<Rightarrow> string \<Rightarrow> json option" where
  "get (JObj kvs) k = map_of kvs k"
| "get x k = None"

text \<open>\<^verbatim>\<open>x?.k\<close>: \<^verbatim>\<open>undefined\<close> when \<open>x\<close> is \<^verbatim>\<open>null\<close> or \<^verbatim>\<open>undefined\<close>.\<close>

fun opt_get :: "json option \<Rightarrow> string \<Rightarrow> json option" where
  "opt_get None k = None"
| "opt_get (Some JNull) k = None"
| "opt_get (Some x) k = get x k"

text \<open>What \<^verbatim>\<open>||\<close>, \<^verbatim>\<open>!\<close> and \<^verbatim>\<open>if\<close> take for true.\<close>

fun truthy :: "json option \<Rightarrow> bool" where
  "truthy None = False"
| "truthy (Some JNull) = False"
| "truthy (Some (JBool b)) = b"
| "truthy (Some (JNum x)) = (x \<noteq> Fin 0 \<and> x \<noteq> NaN)"
| "truthy (Some (JStr s)) = (s \<noteq> [])"
| "truthy (Some (JArr xs)) = True"
| "truthy (Some (JObj kvs)) = True"

text \<open>
  \<^verbatim>\<open>Number(x)\<close>. The conversion of a string, an array or an object is the runtime's and
  is the parameter \<open>conv\<close>.
\<close>

fun Number_of :: "(json \<Rightarrow> jsnum) \<Rightarrow> json \<Rightarrow> jsnum" where
  "Number_of conv (JNum x) = x"
| "Number_of conv (JBool b) = Fin (if b then 1 else 0)"
| "Number_of conv JNull = Fin 0"
| "Number_of conv x = conv x"

section \<open>The equity series (history.js)\<close>

text \<open>
  The snapshots as \<^verbatim>\<open>loadSnapshot\<close> and \<^verbatim>\<open>fetchAllSnapshots\<close> build them. The member
  \<^verbatim>\<open>json\<close> is shared with the result of the verifier, so it is the field of a record
  that both extend.
\<close>

record with_json =
  json :: "json option"

record snapshot = with_json +
  cid :: "string option"
  sha256File :: string
  timestamp :: nat
  verified :: bool

text \<open>
  \<^verbatim>\<open>accounts[Object.keys(accounts).find(k => k !== "All")]\<close>: the value under the first
  own key that is not \<^verbatim>\<open>"All"\<close>, \<^verbatim>\<open>undefined\<close> when there is none. The keys of an array
  or of a string are its indices, none of which is \<^verbatim>\<open>"All"\<close>; a number or a boolean has
  no own key.
\<close>

fun first_account :: "json \<Rightarrow> json option" where
  "first_account (JObj kvs) =
     (case find (\<lambda>k. k \<noteq> ''All'') (map fst kvs) of
        None \<Rightarrow> None
      | Some acctKey \<Rightarrow> map_of kvs acctKey)"
| "first_account (JArr xs) = (case xs of [] \<Rightarrow> None | x # rest \<Rightarrow> Some x)"
| "first_account (JStr s) = (case s of [] \<Rightarrow> None | c # rest \<Rightarrow> Some (JStr [c]))"
| "first_account x = None"

text \<open>
  The body of the \<^verbatim>\<open>map\<close> callback, lines 45 to 52. The formatter of the New York
  calendar day is the parameter \<open>nyDate\<close>, applied to the argument of \<^verbatim>\<open>new Date\<close>; it
  is \<open>None\<close> when the date is invalid, and \<^verbatim>\<open>format\<close> then throws a RangeError.
\<close>

definition row_of ::
  "(json \<Rightarrow> 'd option) \<Rightarrow> (json \<Rightarrow> jsnum) \<Rightarrow> snapshot \<Rightarrow> error + 'd point" where
  "row_of nyDate conv s =
     (let as_of = opt_get (json s) ''as_of_utc'' in
      case nyDate (if truthy as_of then the as_of else JNum (Fin 0)) of
        None \<Rightarrow> Inl RangeError
      | Some dateNY \<Rightarrow>
          let acc = opt_get (opt_get (json s) ''payload'') ''accounts'';
              accounts = (if truthy acc then the acc else JObj []);
              val = opt_get (opt_get (first_account accounts) ''NetLiquidation'') ''value'';
              netliq = Number_of conv
                 (if val = None \<or> val = Some JNull then JNum (Fin 0) else the val)
          in Inr \<lparr>date = dateNY, equity = netliq\<rparr>)"

text \<open>\<^verbatim>\<open>snaps.map(...)\<close>, which ends at the first exception.\<close>

fun map_rows :: "('a \<Rightarrow> error + 'b) \<Rightarrow> 'a list \<Rightarrow> error + 'b list" where
  "map_rows f [] = Inr []"
| "map_rows f (x # xs) =
     (case f x of
        Inl e \<Rightarrow> Inl e
      | Inr y \<Rightarrow> (case map_rows f xs of Inl e \<Rightarrow> Inl e | Inr ys \<Rightarrow> Inr (y # ys)))"

text \<open>\<^verbatim>\<open>.filter(d => d.equity > 0)\<close>\<close>

definition positive_rows :: "'d point list \<Rightarrow> 'd point list" where
  "positive_rows rows0 = filter (\<lambda>d. js_gt (equity d) (Fin 0)) rows0"

text \<open>
  A \<^verbatim>\<open>Map\<close> as the list of its entries in insertion order: \<^verbatim>\<open>set\<close> replaces the value
  of a key that is present, in place, and appends a new key.
\<close>

fun map_set :: "'k \<Rightarrow> 'v \<Rightarrow> ('k \<times> 'v) list \<Rightarrow> ('k \<times> 'v) list" where
  "map_set k x [] = [(k, x)]"
| "map_set k x ((k', x') # m) = (if k' = k then (k, x) # m else (k', x') # map_set k x m)"

text \<open>\<^verbatim>\<open>for (const r of rows) byDate.set(r.date, r);\<close>\<close>

definition dedupe :: "'d point list \<Rightarrow> ('d \<times> 'd point) list" where
  "dedupe rows = foldl (\<lambda>byDate r. map_set (date r) r byDate) [] rows"

definition buildEquitySeries ::
  "(json \<Rightarrow> ('d::linorder) option) \<Rightarrow> (json \<Rightarrow> jsnum) \<Rightarrow> snapshot list \<Rightarrow> error + 'd point list" where
  "buildEquitySeries nyDate conv snaps =
     (case map_rows (row_of nyDate conv) snaps of
        Inl e \<Rightarrow> Inl e
      | Inr rows0 \<Rightarrow>
          let rows = positive_rows rows0;
              byDate = dedupe rows
          in Inr (sort_key date (map snd byDate)))"

section \<open>Fetching and verifying (dataLoader.js)\<close>

text \<open>
  Strings are lists of 8-bit characters. \<^verbatim>\<open>toLowerCase\<close> is modelled on the ASCII
  letters, which is all a hexadecimal digest has.
\<close>

definition lower_char :: "char \<Rightarrow> char" where
  "lower_char c =
     (case map_of (zip ''ABCDEFGHIJKLMNOPQRSTUVWXYZ'' ''abcdefghijklmnopqrstuvwxyz'') c of
        None \<Rightarrow> c
      | Some l \<Rightarrow> l)"

definition toLowerCase :: "string \<Rightarrow> string" where
  "toLowerCase s = map lower_char s"

text \<open>\<^verbatim>\<open>s.startsWith(p)\<close>\<close>

definition startsWith :: "string \<Rightarrow> string \<Rightarrow> bool" where
  "startsWith s p = (take (length p) s = p)"

text \<open>\<^verbatim>\<open>s.replace(/^0x/, "")\<close>\<close>

definition strip_0x :: "string \<Rightarrow> string" where
  "strip_0x s = (if startsWith s ''0x'' then drop 2 s else s)"

text \<open>\<^verbatim>\<open>parts.join(sep)\<close>\<close>

fun join :: "string \<Rightarrow> string list \<Rightarrow> string" where
  "join sep [] = []"
| "join sep [x] = x"
| "join sep (x # y # ys) = x @ sep @ join sep (y # ys)"

type_synonym byte = "8 word"

text \<open>
  \<^verbatim>\<open>Array.from(u8).map(b => b.toString(16).padStart(2, "0")).join("")\<close>
\<close>

definition hex_digit :: "nat \<Rightarrow> char" where
  "hex_digit n = ''0123456789abcdef'' ! n"

definition toHex :: "byte list \<Rightarrow> string" where
  "toHex u8 = concat (map (\<lambda>b. [hex_digit (unat b div 16), hex_digit (unat b mod 16)]) u8)"

text \<open>
  \<^verbatim>\<open>stableStringify\<close>. \<^verbatim>\<open>JSON.stringify\<close> of a primitive value or of a key is the
  parameter \<open>prim\<close>. The members of an object are taken in the order of their sorted keys
  (the keys of an object are distinct, so sorting the members by key is sorting the keys
  and reading each member).
\<close>

fun stableStringify :: "(json \<Rightarrow> string) \<Rightarrow> json \<Rightarrow> string" where
  "stableStringify prim (JArr xs) = ''['' @ join '','' (map (stableStringify prim) xs) @ '']''"
| "stableStringify prim (JObj kvs) =
     ''{'' @ join '',''
        (map (\<lambda>(k, x). prim (JStr k) @ '':'' @ stableStringify prim x) (sort_key fst kvs))
      @ ''}''"
| "stableStringify prim x = prim x"

text \<open>\<^verbatim>\<open>delete clone.sha256\<close> on a value that is not \<^verbatim>\<open>null\<close>.\<close>

fun delete_member :: "string \<Rightarrow> json \<Rightarrow> json" where
  "delete_member k (JObj kvs) = JObj (filter (\<lambda>(k', x). k' \<noteq> k) kvs)"
| "delete_member k x = x"

text \<open>
  What the program calls outside itself: the network, the text codecs, the JSON parser,
  the digest and the registry contract. A fetch is answered by its number in the run and
  its URL; it throws (no connection, timeout) or gives a response, whose body may fail to
  arrive. The codecs, the parser (\<open>None\<close> is its SyntaxError) and the digest are functions.
\<close>

record response =
  status :: nat
  body :: "error + byte list"

record env =
  fetchWithTimeout :: "nat \<Rightarrow> string \<Rightarrow> error + response"
  decode :: "byte list \<Rightarrow> string"
  encode :: "string \<Rightarrow> byte list"
  JSON_parse :: "string \<Rightarrow> json option"
  JSON_stringify :: "json \<Rightarrow> string"
  sha256_digest :: "byte list \<Rightarrow> byte list"
  getSnapshot :: "nat \<Rightarrow> error + string \<times> string \<times> nat"

text \<open>
  What a run leaves behind: the number of fetches made, the number of calls of
  \<^verbatim>\<open>fetchAndVerifyByCID\<close>, and the arguments of each \<^verbatim>\<open>console.warn\<close>.
\<close>

record world =
  fetches :: nat
  calls :: nat
  warnings :: "(nat \<times> error option) list"

text \<open>The result object of \<^verbatim>\<open>fetchAndVerifyByCID\<close>, lines 89 to 98.\<close>

record result = with_json +
  ok :: bool
  mode :: string
  sha256_onchain :: "string option"
  sha256_expected :: "string option"
  sha256_file :: string
  sha256_canonical :: string
  url :: string

text \<open>
  \<^verbatim>\<open>const expected = (expectedHex || "").toLowerCase().replace(/^0x/, "");\<close>
\<close>

definition normalise_expected :: "string option \<Rightarrow> string" where
  "normalise_expected expectedHex =
     strip_0x (toLowerCase (case expectedHex of None \<Rightarrow> [] | Some h \<Rightarrow> h))"

text \<open>The decision, lines 78 to 87.\<close>

definition decide :: "string \<Rightarrow> string \<Rightarrow> string \<Rightarrow> string \<Rightarrow> bool \<times> string" where
  "decide expected inFile fileHash canonicalHash =
     (if expected \<noteq> [] then (fileHash = expected, ''on-chain-file-bytes'')
      else if inFile \<noteq> [] \<and> inFile = fileHash then (True, ''file-bytes'')
      else if inFile \<noteq> [] \<and> inFile = canonicalHash then (True, ''canonical-minus-sha256'')
      else (False, []))"

text \<open>
  \<^verbatim>\<open>(json.sha256 || "").toLowerCase()\<close> for a \<open>j\<close> that is not \<^verbatim>\<open>null\<close>: a truthy member
  that is no string has no \<^verbatim>\<open>toLowerCase\<close>, and the call throws a TypeError.
\<close>

definition embedded_digest :: "json \<Rightarrow> error + string" where
  "embedded_digest j =
     (let m = get j ''sha256'' in
      if \<not> truthy m then Inr (toLowerCase [])
      else case m of Some (JStr s) \<Rightarrow> Inr (toLowerCase s) | _ \<Rightarrow> Inl TypeError)"

text \<open>
  Lines 56 to 98: from the bytes of a successful response to the result, or to the
  exception that the \<^verbatim>\<open>catch\<close> of the loop stores (the HTML case stores its error and
  continues, which is the same for the loop).
\<close>

definition verify_bytes :: "env \<Rightarrow> string option \<Rightarrow> string \<Rightarrow> byte list \<Rightarrow> error + result" where
  "verify_bytes E expectedHex u bytes =
     (let expected = normalise_expected expectedHex;
          text = decode E bytes
      in if startsWith text ''<!DOCTYPE'' \<or> startsWith text ''<html''
         then Inl (Error (u @ '' -> HTML response (not JSON)''))
         else case JSON_parse E text of
           None \<Rightarrow> Inl SyntaxError
         | Some j \<Rightarrow>
             let fileHash = toLowerCase (toHex (sha256_digest E bytes)) in
             (case JSON_parse E text of
                None \<Rightarrow> Inl SyntaxError
              | Some clone \<Rightarrow>
                  if clone = JNull then Inl TypeError
                  else
                    let canonStr = stableStringify (JSON_stringify E) (delete_member ''sha256'' clone);
                        canonicalHash = toLowerCase (toHex (sha256_digest E (encode E canonStr)))
                    in (case embedded_digest j of
                          Inl e \<Rightarrow> Inl e
                        | Inr inFile \<Rightarrow>
                            let (ok', mode') = decide expected inFile fileHash canonicalHash
                            in Inr \<lparr>json = Some j, ok = ok', mode = mode',
                                    sha256_onchain =
                                      (if truthy (map_option JStr expectedHex) then expectedHex else None),
                                    sha256_expected = (if inFile \<noteq> [] then Some inFile else None),
                                    sha256_file = fileHash,
                                    sha256_canonical = canonicalHash,
                                    url = u\<rparr>)))"

text \<open>\<^verbatim>\<open>res.ok\<close>\<close>

definition res_ok :: "response \<Rightarrow> bool" where
  "res_ok res = (200 \<le> status res \<and> status res \<le> 299)"

text \<open>The decimal digits of a status code, for the message of line 54.\<close>

fun digits :: "nat \<Rightarrow> nat \<Rightarrow> string" where
  "digits 0 n = []"
| "digits (Suc fuel) n =
     (if n < 10 then [hex_digit n] else digits fuel (n div 10) @ [hex_digit (n mod 10)])"

definition show_nat :: "nat \<Rightarrow> string" where
  "show_nat n = digits (Suc n) n"

text \<open>One iteration of the loop over the gateways, lines 52 to 102.\<close>

definition try_gateway :: "env \<Rightarrow> string option \<Rightarrow> string \<Rightarrow> world \<Rightarrow> (error + result) \<times> world" where
  "try_gateway E expectedHex u w =
     (let w' = w\<lparr>fetches := fetches w + 1\<rparr> in
      case fetchWithTimeout E (fetches w) u of
        Inl e \<Rightarrow> (Inl e, w')
      | Inr res \<Rightarrow>
          if \<not> res_ok res then (Inl (Error (u @ '' -> '' @ show_nat (status res))), w')
          else case body res of
            Inl e \<Rightarrow> (Inl e, w')
          | Inr bytes \<Rightarrow> (verify_bytes E expectedHex u bytes, w'))"

text \<open>
  The loop over the gateways and the final \<^verbatim>\<open>throw\<close>, lines 50 to 104.
\<close>

fun gateway_loop ::
  "env \<Rightarrow> string option \<Rightarrow> string list \<Rightarrow> error option \<Rightarrow> world \<Rightarrow> (error + result) \<times> world" where
  "gateway_loop E expectedHex [] lastErr w =
     (Inl (case lastErr of None \<Rightarrow> Error ''All IPFS gateways failed'' | Some e \<Rightarrow> e), w)"
| "gateway_loop E expectedHex (u # us) lastErr w =
     (case try_gateway E expectedHex u w of
        (Inr r, w') \<Rightarrow> (Inr r, w')
      | (Inl e, w') \<Rightarrow> gateway_loop E expectedHex us (Some e) w')"

definition gateways :: "string \<Rightarrow> string list" where
  "gateways pointer =
     (if CHR ''/'' \<in> set pointer
      then [''https://w3s.link/ipfs/'' @ pointer,
            ''https://nftstorage.link/ipfs/'' @ pointer,
            ''https://dweb.link/ipfs/'' @ pointer]
      else [''https://'' @ pointer @ ''.ipfs.w3s.link'',
            ''https://'' @ pointer @ ''.ipfs.nftstorage.link'',
            ''https://'' @ pointer @ ''.ipfs.dweb.link''])"

definition fetchAndVerifyByCID ::
  "env \<Rightarrow> string option \<Rightarrow> string option \<Rightarrow> world \<Rightarrow> (error + result) \<times> world" where
  "fetchAndVerifyByCID E pointer expectedHex w =
     (let w1 = w\<lparr>calls := calls w + 1\<rparr> in
      if \<not> truthy (map_option JStr pointer) then (Inl (Error ''No CID provided''), w1)
      else gateway_loop E expectedHex (gateways (the pointer)) None w1)"

section \<open>Loading a snapshot (contract.js, history.js)\<close>

text \<open>\<^verbatim>\<open>getSnapshotByIndex\<close> of contract.js: the contract read may throw.\<close>

definition getSnapshotByIndex :: "env \<Rightarrow> nat \<Rightarrow> error + string \<times> string \<times> nat" where
  "getSnapshotByIndex E index =
     (case getSnapshot E index of
        Inl e \<Rightarrow> Inl e
      | Inr (c, h, ts) \<Rightarrow> Inr (c, toLowerCase h, ts * 1000))"

text \<open>\<^verbatim>\<open>const isZeroHash = (h) => !h || /^0x0+$/i.test(h);\<close>\<close>

definition isZeroHash :: "string \<Rightarrow> bool" where
  "isZeroHash h =
     (h = [] \<or>
      (toLowerCase (take 2 h) = ''0x'' \<and> drop 2 h \<noteq> [] \<and> list_all (\<lambda>c. c = CHR ''0'') (drop 2 h)))"

text \<open>
  The retry loop of \<^verbatim>\<open>loadSnapshot\<close>, lines 13 to 23, from the value \<open>attempt\<close> of its
  counter on. The result is \<open>Inr None\<close> for \<^verbatim>\<open>null\<close>.
\<close>

function attempts ::
  "env \<Rightarrow> nat \<Rightarrow> string \<Rightarrow> string \<Rightarrow> nat \<Rightarrow> string option \<Rightarrow> nat \<Rightarrow> error option \<Rightarrow> world
     \<Rightarrow> (error + snapshot option) \<times> world" where
  "attempts E i c h ts expected attempt lastErr w =
     (if attempt \<le> 3 then
        (case fetchAndVerifyByCID E (Some c) expected w of
           (Inr r, w') \<Rightarrow>
             if truthy (json r)
             then (Inr (Some \<lparr>json = json r, cid = Some c, sha256File = h, timestamp = ts,
                               verified = ok r\<rparr>), w')
             else attempts E i c h ts expected (attempt + 1) lastErr w'
         | (Inl e, w') \<Rightarrow> attempts E i c h ts expected (attempt + 1) (Some e) w')
      else (Inr None, w\<lparr>warnings := warnings w @ [(i, lastErr)]\<rparr>))"
  by pat_completeness auto
termination
  by (relation "measure (\<lambda>(E, i, c, h, ts, expected, attempt, lastErr, w). 4 - attempt)") auto

declare attempts.simps [simp del]

definition loadSnapshot :: "env \<Rightarrow> nat \<Rightarrow> world \<Rightarrow> (error + snapshot option) \<times> world" where
  "loadSnapshot E i w =
     (case getSnapshotByIndex E i of
        Inl e \<Rightarrow> (Inl e, w)
      | Inr (c, h, ts) \<Rightarrow>
          let expected = (if isZeroHash h then None else Some h)
          in attempts E i c h ts expected 1 None w)"

text \<open>
  An environment for the examples. Every gateway answers 200 with the bytes of one text;
  the codecs map a character to its byte and back; the parser knows the texts of the
  examples; the digest is a stand-in of two bytes (the length of the input and a constant),
  since the properties hold of any digest function.
\<close>

definition example_digest :: "byte list \<Rightarrow> byte list" where
  "example_digest bs = [of_nat (length bs), 0xAB]"

definition text_of :: "byte list \<Rightarrow> string" where
  "text_of bs = map (\<lambda>b. char_of (unat b)) bs"

definition bytes_of :: "string \<Rightarrow> byte list" where
  "bytes_of s = map (\<lambda>c. of_nat (of_char c)) s"

definition payload_null :: string where
  "payload_null = ''null''"

definition payload_empty :: string where
  "payload_empty = ''{}''"

definition payload_number :: string where
  \<open>payload_number = ''{"sha256":5}''\<close>

definition payload_bare :: string where
  \<open>payload_bare = ''{"sha256":"02AB"}''\<close>

definition payload_prefixed :: string where
  \<open>payload_prefixed = ''{"sha256":"0x02AB"}''\<close>

definition example_parse :: "string \<Rightarrow> json option" where
  "example_parse text =
     (if text = payload_null then Some JNull
      else if text = payload_empty then Some (JObj [])
      else if text = payload_number then Some (JObj [(''sha256'', JNum (Fin 5))])
      else if text = payload_bare then Some (JObj [(''sha256'', JStr ''02AB'')])
      else if text = payload_prefixed then Some (JObj [(''sha256'', JStr ''0x02AB'')])
      else None)"

text \<open>\<^verbatim>\<open>JSON.stringify\<close> on the primitive values of the examples, which have no number.\<close>

fun example_stringify :: "json \<Rightarrow> string" where
  "example_stringify (JStr s) = [CHR 0x22] @ s @ [CHR 0x22]"
| "example_stringify (JBool b) = (if b then ''true'' else ''false'')"
| "example_stringify x = ''null''"

definition example_env :: "string \<Rightarrow> (nat \<Rightarrow> error + string \<times> string \<times> nat) \<Rightarrow> env" where
  "example_env text registry =
     \<lparr>fetchWithTimeout = (\<lambda>n u. Inr \<lparr>status = 200, body = Inr (bytes_of text)\<rparr>),
      decode = text_of, encode = bytes_of,
      JSON_parse = example_parse, JSON_stringify = example_stringify,
      sha256_digest = example_digest, getSnapshot = registry\<rparr>"

text \<open>An environment in which no gateway can be reached.\<close>

definition offline_env :: "(nat \<Rightarrow> error + string \<times> string \<times> nat) \<Rightarrow> env" where
  "offline_env registry =
     \<lparr>fetchWithTimeout = (\<lambda>n u. Inl TypeError),
      decode = text_of, encode = bytes_of,
      JSON_parse = example_parse, JSON_stringify = example_stringify,
      sha256_digest = example_digest, getSnapshot = registry\<rparr>"

text \<open>A registry that answers every index, and one whose read fails.\<close>

definition registry_ok :: "nat \<Rightarrow> error + string \<times> string \<times> nat" where
  "registry_ok index = Inr (''bafyexample'', ''0x02AB'', 1700000000)"

definition registry_down :: "nat \<Rightarrow> error + string \<times> string \<times> nat" where
  "registry_down index = Inl (Error ''could not detect network'')"

definition world0 :: world where
  "world0 = \<lparr>fetches = 0, calls = 0, warnings = []\<rparr>"

text \<open>The hexadecimal digit strings, in either case.\<close>

definition is_hex :: "string \<Rightarrow> bool" where
  "is_hex h = list_all (\<lambda>c. c \<in> set ''0123456789abcdefABCDEF'') h"

text \<open>What a claim reads of a result: \<^verbatim>\<open>ok\<close> and \<^verbatim>\<open>mode\<close>.\<close>

definition verdict :: "error + result \<Rightarrow> error + bool \<times> string" where
  "verdict x = (case x of Inl e \<Rightarrow> Inl e | Inr r \<Rightarrow> Inr (ok r, mode r))"

text \<open>
  Instances of the two runtime parameters for the examples: the day of an ISO instant
  whose New York calendar day is the day it is written with, and a conversion that finds
  no number (as \<^verbatim>\<open>Number("n/a")\<close> is NaN).
\<close>

fun iso_day :: "json \<Rightarrow> string option" where
  "iso_day (JStr s) = (if length s < 10 then None else Some (take 10 s))"
| "iso_day x = None"

definition no_number :: "json \<Rightarrow> jsnum" where
  "no_number x = NaN"

text \<open>A snapshot of the record schema with one account beside \<^verbatim>\<open>"All"\<close>.\<close>

definition account_snapshot :: "string \<Rightarrow> json \<Rightarrow> snapshot" where
  "account_snapshot as_of val =
     \<lparr>json = Some (JObj
        [(''as_of_utc'', JStr as_of),
         (''payload'', JObj [(''accounts'', JObj
            [(''All'', JObj [(''NetLiquidation'', JObj [(''value'', JNum (Fin 1))])]),
             (''U1'', JObj [(''NetLiquidation'', JObj [(''value'', val)])])])])]),
      cid = None, sha256File = [], timestamp = 0, verified = True\<rparr>"

text \<open>A snapshot with a date and no account data.\<close>

definition bare_snapshot :: "string \<Rightarrow> snapshot" where
  "bare_snapshot as_of =
     \<lparr>json = Some (JObj [(''as_of_utc'', JStr as_of)]),
      cid = None, sha256File = [], timestamp = 0, verified = True\<rparr>"

text \<open>Scenario B of the specification: two snapshots of one day, 500 then 600.\<close>

definition scenario_B :: "snapshot list" where
  "scenario_B =
     [account_snapshot ''2024-02-01T15:00:00Z'' (JNum (Fin 500)),
      account_snapshot ''2024-02-01T21:00:00Z'' (JNum (Fin 600))]"

text \<open>One day with equity 500, then no account data, then a value that is no number.\<close>

definition later_unusable :: "snapshot list" where
  "later_unusable =
     [account_snapshot ''2024-02-01T15:00:00Z'' (JNum (Fin 500)),
      bare_snapshot ''2024-02-01T18:00:00Z'',
      account_snapshot ''2024-02-01T21:00:00Z'' (JStr ''n/a'')]"

text \<open>One day with equities 500 and 600, then a snapshot with no account data.\<close>

definition two_then_unusable :: "snapshot list" where
  "two_then_unusable =
     [account_snapshot ''2024-02-01T15:00:00Z'' (JNum (Fin 500)),
      account_snapshot ''2024-02-01T18:00:00Z'' (JNum (Fin 600)),
      bare_snapshot ''2024-02-01T21:00:00Z'']"


text \<open>
  Reading the results as reals: \<open>is_fin\<close> holds of the finite numbers, \<open>fin_pos\<close> of the
  finite positive ones, \<open>num\<close> is the real a finite number stands for.
\<close>

definition is_fin :: "jsnum \<Rightarrow> bool" where
  "is_fin a = (case a of Fin x \<Rightarrow> True | _ \<Rightarrow> False)"

definition fin_pos :: "jsnum \<Rightarrow> bool" where
  "fin_pos a = (case a of Fin x \<Rightarrow> 0 < x | _ \<Rightarrow> False)"

definition num :: "jsnum \<Rightarrow> real" where
  "num a = (case a of Fin x \<Rightarrow> x | _ \<Rightarrow> 0)"










text \<open>Scenario A of the specification, given out of order.\<close>

definition scenario_A :: "string point list" where
  "scenario_A =
     [\<lparr>date = ''2024-01-02'', equity = Fin 110000\<rparr>,
      \<lparr>date = ''2024-01-01'', equity = Fin 100000\<rparr>,
      \<lparr>date = ''2024-01-03'', equity = Fin 99000\<rparr>]"




section \<open>The analytics on a store\<close>

text \<open>
  To see what \<^verbatim>\<open>computePerformance\<close> does to its argument, arrays and objects are put in
  a store: an array is an address and holds references to objects; the equity points are
  objects. \<^verbatim>\<open>[...series]\<close> allocates a new array with the same references, and
  \<^verbatim>\<open>sort\<close> reorders in place the array it is called on. The points of the series are read
  and never written. The result arrays and their objects are new; of the result, the store
  holds the array \<^verbatim>\<open>s\<close>, which shares its elements with the argument.
\<close>

type_synonym addr = nat

record 'd store =
  arrays :: "addr list list"
  objects :: "addr \<Rightarrow> 'd point"

definition deref :: "'d store \<Rightarrow> addr \<Rightarrow> 'd point list" where
  "deref h a = map (objects h) (arrays h ! a)"

text \<open>A new array, at the next free address.\<close>

definition array_new :: "addr list \<Rightarrow> 'd store \<Rightarrow> addr \<times> 'd store" where
  "array_new refs h = (length (arrays h), h\<lparr>arrays := arrays h @ [refs]\<rparr>)"

text \<open>\<^verbatim>\<open>a.sort((x,y) => x.date.localeCompare(y.date))\<close>, in place.\<close>

definition array_sort :: "addr \<Rightarrow> ('d::linorder) store \<Rightarrow> 'd store" where
  "array_sort a h =
     h\<lparr>arrays := (arrays h)[a := sort_key (\<lambda>r. date (objects h r)) (arrays h ! a)]\<rparr>"

text \<open>
  \<^verbatim>\<open>computePerformance\<close> on a reference (\<open>None\<close> is \<^verbatim>\<open>null\<close> or \<^verbatim>\<open>undefined\<close>): the
  address of the array \<^verbatim>\<open>series\<close> of the result, the result, and the store.
\<close>

definition computePerformance_store ::
  "addr option \<Rightarrow> ('d::linorder) store \<Rightarrow> (addr \<times> 'd performance) \<times> 'd store" where
  "computePerformance_store input h =
     (if input = None \<or> length (arrays h ! the input) = 0
      then (let (e, h1) = array_new [] h
            in ((e, \<lparr>series = [], returns = [], vami = [], drawdown = [], stats = None\<rparr>), h1))
      else (let (s, h1) = array_new (arrays h ! the input) h;
                h2 = array_sort s h1
            in ((s, analyse (deref h2 s)), h2)))"

text \<open>Scenario A in a store: one array of three points, out of order.\<close>

definition store_A :: "string store" where
  "store_A = \<lparr>arrays = [[0, 1, 2]], objects = (\<lambda>r. scenario_A ! r)\<rparr>"

section \<open>Properties of the rounding\<close>

lemma round_even_int: "round_even (of_int n) = n"
  by (simp add: round_even_def)

lemma round_even_ge: "of_int n \<le> t \<Longrightarrow> n \<le> round_even t"
proof -
  assume "of_int n \<le> t"
  hence "n \<le> \<lfloor>t\<rfloor>" by (simp add: le_floor_iff)
  thus ?thesis unfolding round_even_def Let_def by auto
qed

lemma pow2_less_iff: "(2::real) powi m < 2 powi n \<longleftrightarrow> m < n"
proof
  assume a: "(2::real) powi m < 2 powi n"
  show "m < n"
  proof (rule ccontr)
    assume "\<not> m < n"
    hence "n \<le> m" by simp
    hence "(2::real) powi n \<le> 2 powi m" by (intro power_int_increasing) simp_all
    with a show False by simp
  qed
next
  assume "m < n"
  thus "(2::real) powi m < 2 powi n" by (intro power_int_strict_increasing) simp_all
qed



lemma round_even_le: "t \<le> of_int n \<Longrightarrow> round_even t \<le> n"
proof -
  assume a: "t \<le> of_int n"
  show ?thesis
  proof (cases "t = of_int n")
    case True thus ?thesis by (simp add: round_even_int)
  next
    case False
    with a have "t < of_int n" by simp
    hence "\<lfloor>t\<rfloor> < n" by (simp add: floor_less_iff)
    thus ?thesis unfolding round_even_def Let_def by auto
  qed
qed

lemma log2_bounds:
  assumes "0 < a"
  shows "2 powi \<lfloor>log 2 a\<rfloor> \<le> a" and "a < 2 powi (\<lfloor>log 2 a\<rfloor> + 1)"
proof -
  have "2 powr (of_int \<lfloor>log 2 a\<rfloor>) \<le> a \<and> a < 2 powr (of_int (\<lfloor>log 2 a\<rfloor> + 1))"
    using floor_log_eq_powr_iff [of a 2 "\<lfloor>log 2 a\<rfloor>"] assms by simp
  thus "2 powi \<lfloor>log 2 a\<rfloor> \<le> a" and "a < 2 powi (\<lfloor>log 2 a\<rfloor> + 1)"
    using powr_real_of_int' [of 2 "\<lfloor>log 2 a\<rfloor>"] powr_real_of_int' [of 2 "\<lfloor>log 2 a\<rfloor> + 1"]
    by simp_all
qed

lemma floor_log2_eq:
  assumes "2 powi e \<le> a" and "a < 2 powi (e + 1)"
  shows "\<lfloor>log 2 a\<rfloor> = e"
proof -
  have "0 < (2::real) powi e" by simp
  with assms have p: "0 < a" by linarith
  have "2 powr (of_int e) \<le> a \<and> a < 2 powr (of_int e + 1)"
    using assms powr_real_of_int' [of 2 e] powr_real_of_int' [of 2 "e + 1"] by simp
  thus ?thesis using floor_log_eq_powr_iff [of a 2 e] p by simp
qed

lemma expo_normal:
  assumes "2 powi e \<le> a" and "a < 2 powi (e + 1)" and "- 1022 \<le> e"
  shows "expo a = e"
  using floor_log2_eq [OF assms(1,2)] assms(3) by (simp add: expo_def)

lemma expo_ge: "- 1022 \<le> expo a"
  by (simp add: expo_def)

lemma expo_upper: "0 < a \<Longrightarrow> a < 2 powi (expo a + 1)"
proof -
  assume p: "0 < a"
  have "\<lfloor>log 2 a\<rfloor> + 1 \<le> expo a + 1" by (simp add: expo_def)
  hence "(2::real) powi (\<lfloor>log 2 a\<rfloor> + 1) \<le> 2 powi (expo a + 1)"
    by (intro power_int_increasing) simp_all
  with log2_bounds(2) [OF p] show ?thesis by linarith
qed

lemma expo_le:
  assumes "0 < a" and "a < 2 powi (k + 1)" and "- 1022 \<le> k"
  shows "expo a \<le> k"
proof -
  have "2 powi \<lfloor>log 2 a\<rfloor> < (2::real) powi (k + 1)"
    using log2_bounds(1) [OF assms(1)] assms(2) by linarith
  hence "\<lfloor>log 2 a\<rfloor> < k + 1"
    by (simp add: pow2_less_iff)
  thus ?thesis using assms(3) by (simp add: expo_def)
qed



lemma fl_0: "fl 0 = Fin 0"
  by (simp add: fl_def)

lemma fl_minus: "fl (- x) = js_neg (fl x)"
  by (simp add: fl_def Let_def)

lemma fl_pos:
  assumes "0 < x"
  shows "fl x = (let y = of_int (round_even (x / 2 powi (expo x - 52))) * 2 powi (expo x - 52)
                 in if 2 ^ 1024 \<le> y then PosInf else Fin y)"
  using assms by (simp add: fl_def Let_def)

lemma fl_check:
  assumes "2 powi e \<le> x" and "x < 2 powi (e + 1)" and "- 1022 \<le> e"
    and "round_even (x / 2 powi (e - 52)) = n"
    and "of_int n * 2 powi (e - 52) = y" and "y < 2 ^ 1024"
  shows "fl x = Fin y"
proof -
  have "0 < (2::real) powi e" by simp
  with assms(1) have p: "0 < x" by linarith
  have e: "expo x = e" using assms(1-3) by (rule expo_normal)
  show ?thesis using assms(4-6) by (simp add: fl_pos [OF p] e Let_def)
qed

lemma quot_pow2: "k \<le> m \<Longrightarrow> (2::real) powi m / 2 powi k = of_int (2 ^ nat (m - k))"
proof -
  assume "k \<le> m"
  hence "(2::real) powi (m - k) = 2 ^ nat (m - k)" by (simp add: power_int_def)
  thus ?thesis by (simp add: power_int_diff)
qed





lemma fl_sign:
  assumes "fl x = Fin y"
  shows "(0 \<le> x \<longrightarrow> 0 \<le> y) \<and> (x \<le> 0 \<longrightarrow> y \<le> 0)"
proof (cases "x = 0")
  case True thus ?thesis using assms by (auto simp: fl_0)
next
  case False
  let ?a = "\<bar>x\<bar>"
  let ?q = "(2::real) powi (expo ?a - 52)"
  let ?n = "round_even (?a / ?q)"
  have q: "0 < ?q" by simp
  have "of_int 0 \<le> ?a / ?q" using q by simp
  hence "0 \<le> ?n" by (rule round_even_ge)
  hence lo: "0 \<le> of_int ?n * ?q" using q by simp
  show ?thesis using assms False lo by (auto simp: fl_def Let_def split: if_splits)
qed

lemma fl_exact_pos:
  assumes "0 < n" and "n \<le> 2 ^ 53" and "- 1074 \<le> k" and "of_int n * 2 powi k < (2::real) ^ 1024"
  shows "fl (of_int n * 2 powi k) = Fin (of_int n * 2 powi k)"
proof -
  let ?x = "of_int n * (2::real) powi k"
  let ?e = "expo ?x"
  let ?q = "(2::real) powi (?e - 52)"
  have p: "0 < ?x" using assms(1) by simp
  have "\<exists>m. ?x / ?q = of_int m"
  proof (cases "n = 2 ^ 53")
    case True
    have "?x = 2 powi 53 * 2 powi k" by (simp add: True)
    also have "\<dots> = 2 powi (k + 53)" by (simp add: power_int_add)
    finally have x: "?x = 2 powi (k + 53)" .
    have "(2::real) powi (k + 53) < 2 powi (k + 53 + 1)" by (simp only: pow2_less_iff)
    hence "?x < 2 powi (k + 53 + 1)" by (simp only: x)
    hence "?e \<le> k + 53" using p assms(3) by (intro expo_le) simp_all
    hence "?x / ?q = of_int (2 ^ nat ((k + 53) - (?e - 52)))"
      unfolding x by (intro quot_pow2) simp
    thus ?thesis by blast
  next
    case False
    with assms(2) have "n < 2 ^ 53" by simp
    hence "of_int n < (2::real) ^ 53" by (metis of_int_less_numeral_power_cancel_iff)
    hence "?x < 2 ^ 53 * 2 powi k" by simp
    also have "\<dots> = 2 powi 53 * 2 powi k" by simp
    also have "\<dots> = 2 powi (k + 52 + 1)" by (simp add: power_int_add)
    finally have "?e \<le> k + 52" using p assms(3) by (intro expo_le) simp_all
    hence "(2::real) powi k / ?q = of_int (2 ^ nat (k - (?e - 52)))"
      by (intro quot_pow2) simp
    hence "of_int n * ((2::real) powi k / ?q) = of_int n * of_int (2 ^ nat (k - (?e - 52)))"
      by (simp only:)
    hence "?x / ?q = of_int n * of_int (2 ^ nat (k - (?e - 52)))"
      by (simp only: times_divide_eq_right)
    also have "\<dots> = of_int (n * 2 ^ nat (k - (?e - 52)))" by simp
    finally show ?thesis by blast
  qed
  then obtain m where m: "?x / ?q = of_int m" by blast
  hence "round_even (?x / ?q) = m" by (simp only: round_even_int)
  hence "of_int (round_even (?x / ?q)) * ?q = ?x / ?q * ?q" using m by simp
  hence "of_int (round_even (?x / ?q)) * ?q = ?x" by simp
  thus ?thesis using assms(4) by (simp add: fl_pos [OF p] Let_def)
qed

lemma fl_exact:
  assumes "\<bar>n\<bar> \<le> 2 ^ 53" and "- 1074 \<le> k" and "\<bar>of_int n\<bar> * 2 powi k < (2::real) ^ 1024"
  shows "fl (of_int n * 2 powi k) = Fin (of_int n * 2 powi k)"
proof -
  consider "n = 0" | "0 < n" | "n < 0" by linarith
  thus ?thesis
  proof cases
    case 1 thus ?thesis by (simp add: fl_0)
  next
    case 2 thus ?thesis using assms by (intro fl_exact_pos) simp_all
  next
    case 3
    hence "fl (of_int (- n) * 2 powi k) = Fin (of_int (- n) * 2 powi k)"
      using assms by (intro fl_exact_pos) simp_all
    hence "js_neg (fl (of_int n * 2 powi k)) = Fin (- (of_int n * 2 powi k))"
      using fl_minus [of "of_int n * 2 powi k"] by simp
    thus ?thesis by (cases "fl (of_int n * 2 powi k)") simp_all
  qed
qed



text \<open>
  The rounded value is a nearest one: it is off by at most half the spacing of the
  doubles around \<open>x\<close>, and a double is left as it is.
\<close>

lemma round_even_err: "\<bar>of_int (round_even t) - t\<bar> \<le> 1 / 2"
proof -
  have "of_int \<lfloor>t\<rfloor> \<le> t" "t < of_int \<lfloor>t\<rfloor> + 1" by linarith+
  then show ?thesis unfolding round_even_def Let_def by (auto simp: abs_le_iff)
qed

lemma fl_error:
  assumes "fl x = Fin y"
  shows "\<bar>y - x\<bar> \<le> 2 powi (expo \<bar>x\<bar> - 53)"
proof (cases "x = 0")
  case True
  then show ?thesis using assms by (auto simp: fl_0)
next
  case False
  let ?a = "\<bar>x\<bar>"
  let ?q = "(2::real) powi (expo ?a - 52)"
  let ?n = "round_even (?a / ?q)"
  have q: "0 < ?q" by simp
  have h: "?q / 2 = 2 powi (expo ?a - 53)"
  proof -
    have "(2::real) powi (expo ?a - 52) = 2 powi (expo ?a - 53 + 1)" by simp
    also have "\<dots> = 2 powi (expo ?a - 53) * 2" by (subst power_int_add) simp_all
    finally show ?thesis by simp
  qed
  have "\<bar>of_int ?n * ?q - ?a\<bar> = \<bar>of_int ?n - ?a / ?q\<bar> * ?q"
  proof -
    have "of_int ?n * ?q - ?a = (of_int ?n - ?a / ?q) * ?q" using q by (simp add: field_simps)
    then show ?thesis using q by (simp only: abs_mult) simp
  qed
  also have "\<dots> \<le> 1 / 2 * ?q"
    using round_even_err [of "?a / ?q"] q by (intro mult_right_mono) simp_all
  finally have e: "\<bar>of_int ?n * ?q - ?a\<bar> \<le> 2 powi (expo ?a - 53)" using h by simp
  have "y = (if 0 < x then of_int ?n * ?q else - (of_int ?n * ?q))"
    using assms False by (auto simp: fl_def Let_def split: if_splits)
  then show ?thesis using e False by (auto simp: abs_if split: if_splits)
qed

lemma fl_idem:
  assumes "fl x = Fin y"
  shows "fl y = Fin y"
proof (cases "x = 0")
  case True
  then show ?thesis using assms by (auto simp: fl_0)
next
  case False
  let ?a = "\<bar>x\<bar>"
  let ?k = "expo ?a - 52"
  let ?n = "round_even (?a / 2 powi ?k)"
  have q: "0 < (2::real) powi ?k" by simp
  have y: "y = (if 0 < x then of_int ?n * 2 powi ?k else - (of_int ?n * 2 powi ?k))"
    and lt: "of_int ?n * 2 powi ?k < (2::real) ^ 1024"
    using assms False by (auto simp: fl_def Let_def split: if_splits)
  have "of_int 0 \<le> ?a / 2 powi ?k" using q by simp
  then have n0: "0 \<le> ?n" by (rule round_even_ge)
  have "?a < 2 powi (expo ?a + 1)" using False by (intro expo_upper) simp
  then have "?a / 2 powi ?k \<le> 2 powi (expo ?a + 1) / 2 powi ?k"
    using q by (simp add: divide_right_mono)
  also have "\<dots> = of_int (2 ^ nat (expo ?a + 1 - ?k))" by (intro quot_pow2) simp
  finally have "?n \<le> 2 ^ nat (expo ?a + 1 - ?k)" by (rule round_even_le)
  moreover have "nat (expo ?a + 1 - ?k) = 53" by simp
  ultimately have n53: "?n \<le> 2 ^ 53" by simp
  have k: "- 1074 \<le> ?k" using expo_ge [of ?a] by simp
  have "fl (of_int ?n * 2 powi ?k) = Fin (of_int ?n * 2 powi ?k)"
    using n0 n53 k lt by (intro fl_exact) simp_all
  then show ?thesis
  proof (cases "0 < x")
    case True
    then show ?thesis using y \<open>fl (of_int ?n * 2 powi ?k) = Fin (of_int ?n * 2 powi ?k)\<close> by simp
  next
    case False
    then have "y = - (of_int ?n * 2 powi ?k)" using y by simp
    then show ?thesis
      using \<open>fl (of_int ?n * 2 powi ?k) = Fin (of_int ?n * 2 powi ?k)\<close>
        fl_minus [of "of_int ?n * 2 powi ?k"] by simp
  qed
qed

section \<open>Properties of the loops\<close>

lemma returns_prefix_Suc:
  "foldl (returns_step s) [] [0..<Suc n] =
     foldl (returns_step s) [] [0..<n] @
       [if n = 0 then \<lparr>date = date (s ! n), ret = Fin 0\<rparr>
        else \<lparr>date = date (s ! n), ret = js_sub (js_div (equity (s ! n)) (equity (s ! (n - 1)))) (Fin 1)\<rparr>]"
  by (simp add: returns_step_def Let_def)

lemma length_returns_prefix: "length (foldl (returns_step s) [] [0..<n]) = n"
  by (induction n) (simp_all add: returns_prefix_Suc del: upt_Suc)

lemma returns_prefix_nth:
  "i < n \<Longrightarrow> foldl (returns_step s) [] [0..<n] ! i =
     (if i = 0 then \<lparr>date = date (s ! i), ret = Fin 0\<rparr>
      else \<lparr>date = date (s ! i), ret = js_sub (js_div (equity (s ! i)) (equity (s ! (i - 1)))) (Fin 1)\<rparr>)"
proof (induction n)
  case 0
  then show ?case by simp
next
  case (Suc n)
  then show ?case
    by (cases "i = n")
       (simp_all add: returns_prefix_Suc nth_append length_returns_prefix del: upt_Suc)
qed

lemma vami_prefix_Suc:
  "foldl (vami_step s rs) [] [0..<Suc n] =
     foldl (vami_step s rs) [] [0..<n] @
       [if n = 0 then \<lparr>date = date (s ! n), v = Fin 1000\<rparr>
        else \<lparr>date = date (s ! n),
               v = js_mul (v (foldl (vami_step s rs) [] [0..<n] ! (n - 1)))
                          (js_add (Fin 1) (ret (rs ! n)))\<rparr>]"
  by (simp add: vami_step_def Let_def)

lemma length_vami_prefix: "length (foldl (vami_step s rs) [] [0..<n]) = n"
  by (induction n) (simp_all add: vami_prefix_Suc del: upt_Suc)

lemma vami_prefix_stable:
  "i < n \<Longrightarrow> n \<le> m \<Longrightarrow>
     foldl (vami_step s rs) [] [0..<m] ! i = foldl (vami_step s rs) [] [0..<n] ! i"
proof (induction m)
  case 0
  then show ?case by simp
next
  case (Suc m)
  show ?case
  proof (cases "n = Suc m")
    case True
    then show ?thesis by simp
  next
    case False
    with Suc.prems have le: "n \<le> m" by simp
    with Suc have "foldl (vami_step s rs) [] [0..<m] ! i = foldl (vami_step s rs) [] [0..<n] ! i"
      by simp
    moreover have "i < m" using Suc.prems le by simp
    ultimately show ?thesis
      by (simp add: vami_prefix_Suc nth_append length_vami_prefix del: upt_Suc)
  qed
qed

lemma vami_loop_nth:
  assumes "i < length s"
  shows "vami_loop s rs ! i =
     (if i = 0 then \<lparr>date = date (s ! i), v = Fin 1000\<rparr>
      else \<lparr>date = date (s ! i),
             v = js_mul (v (vami_loop s rs ! (i - 1))) (js_add (Fin 1) (ret (rs ! i)))\<rparr>)"
proof -
  have a: "vami_loop s rs ! i = foldl (vami_step s rs) [] [0..<Suc i] ! i"
    unfolding vami_loop_def using assms by (intro vami_prefix_stable) simp_all
  have b: "foldl (vami_step s rs) [] [0..<Suc i] ! i =
     (if i = 0 then \<lparr>date = date (s ! i), v = Fin 1000\<rparr>
      else \<lparr>date = date (s ! i),
             v = js_mul (v (foldl (vami_step s rs) [] [0..<i] ! (i - 1)))
                        (js_add (Fin 1) (ret (rs ! i)))\<rparr>)"
    by (simp add: vami_prefix_Suc nth_append length_vami_prefix del: upt_Suc)
  show ?thesis
  proof (cases "i = 0")
    case True
    then show ?thesis using a b by simp
  next
    case False
    then have "vami_loop s rs ! (i - 1) = foldl (vami_step s rs) [] [0..<i] ! (i - 1)"
      unfolding vami_loop_def using assms by (intro vami_prefix_stable) simp_all
    then show ?thesis using a b False by simp
  qed
qed



lemma daily_returns_nth:
  "i < length s \<Longrightarrow> daily_returns s ! i =
     (if i = 0 then \<lparr>date = date (s ! i), ret = Fin 0\<rparr>
      else \<lparr>date = date (s ! i), ret = js_sub (js_div (equity (s ! i)) (equity (s ! (i - 1)))) (Fin 1)\<rparr>)"
  by (simp add: daily_returns_def returns_prefix_nth)

lemma analyse_fields:
  "series (analyse s) = s" "returns (analyse s) = daily_returns s"
  "vami (analyse s) = vami_loop s (daily_returns s)"
  "drawdown (analyse s) = fst (dd_loop s (vami_loop s (daily_returns s)))"
  "stats (analyse s) = Some (compute_stats s (daily_returns s) (snd (snd (dd_loop s (vami_loop s (daily_returns s))))))"
  by (simp_all add: analyse_def Let_def split: prod.splits)

lemma length_sort_by_date: "length (sort_by_date input) = length input"
  by (simp add: sort_by_date_def)


section \<open>Scenario A in double arithmetic\<close>

lemma fin_posE: "fin_pos a \<Longrightarrow> (\<And>x. a = Fin x \<Longrightarrow> 0 < x \<Longrightarrow> P) \<Longrightarrow> P"
  by (cases a) (simp_all add: fin_pos_def)

lemma fin_pos_Fin [simp]: "fin_pos (Fin x) = (0 < x)"
  by (simp add: fin_pos_def)

lemma is_fin_simps [simp]: "is_fin (Fin x)" "\<not> is_fin PosInf" "\<not> is_fin NegInf" "\<not> is_fin NaN"
  by (simp_all add: is_fin_def)


lemma num_Fin [simp]: "num (Fin x) = x"
  by (simp add: num_def)


text \<open>The quotients \<open>1.1\<close> and \<open>0.9\<close> are no doubles; the nearest doubles take their place.\<close>

lemma fl_11_10: "fl (11 / 10) = Fin (4953959590107546 / 2 ^ 52)"
  by (rule fl_check [where e = 0 and n = 4953959590107546]) (simp_all add: round_even_def)

lemma fl_9_10: "fl (9 / 10) = Fin (8106479329266893 / 2 ^ 53)"
  by (rule fl_check [where e = "- 1" and n = 8106479329266893]) (simp_all add: round_even_def)

lemma ret_A1:
  "js_sub (js_div (Fin 110000) (Fin 100000)) (Fin 1) = Fin (450359962737050 / 2 ^ 52)"
proof -
  have "fl (4953959590107546 / 2 ^ 52 - 1) = Fin (450359962737050 / 2 ^ 52)"
    using fl_exact [of 450359962737050 "- 52"] by simp
  then show ?thesis using fl_11_10 by (simp add: js_sub_def)
qed

lemma ret_A2:
  "js_sub (js_div (Fin 99000) (Fin 110000)) (Fin 1) = Fin (- (900719925474099 / 2 ^ 53))"
proof -
  have "fl (8106479329266893 / 2 ^ 53 - 1) = Fin (- (900719925474099 / 2 ^ 53))"
    using fl_exact [of "- 900719925474099" "- 53"] by simp
  then show ?thesis using fl_9_10 by (simp add: js_sub_def)
qed

lemma vami_A1:
  "js_mul (Fin 1000) (js_add (Fin 1) (Fin (450359962737050 / 2 ^ 52))) = Fin 1100"
proof -
  have a: "fl (1 + 450359962737050 / 2 ^ 52) = Fin (4953959590107546 / 2 ^ 52)"
    using fl_exact [of 4953959590107546 "- 52"] by simp
  have b: "fl (1000 * (4953959590107546 / 2 ^ 52)) = Fin 1100"
    by (rule fl_check [where e = 10 and n = 4837851162214400]) (simp_all add: round_even_def)
  show ?thesis using a b by simp
qed

lemma vami_A2:
  "js_mul (Fin 1100) (js_add (Fin 1) (Fin (- (900719925474099 / 2 ^ 53)))) = Fin 990"
proof -
  have a: "fl (1 + - (900719925474099 / 2 ^ 53)) = Fin (8106479329266893 / 2 ^ 53)"
    using fl_exact [of 8106479329266893 "- 53"] by simp
  have b: "fl (1100 * (8106479329266893 / 2 ^ 53)) = Fin 990"
    by (rule fl_check [where e = 9 and n = 8708132091985920]) (simp_all add: round_even_def)
  show ?thesis using a b by simp
qed



lemma scenario_A_sorted:
  "sort_by_date scenario_A =
     [\<lparr>date = ''2024-01-01'', equity = Fin 100000\<rparr>,
      \<lparr>date = ''2024-01-02'', equity = Fin 110000\<rparr>,
      \<lparr>date = ''2024-01-03'', equity = Fin 99000\<rparr>]"
  by (simp add: scenario_A_def sort_by_date_def)

lemma scenario_A_returns:
  "returns (computePerformance scenario_A) =
     [\<lparr>date = ''2024-01-01'', ret = Fin 0\<rparr>,
      \<lparr>date = ''2024-01-02'', ret = Fin (450359962737050 / 2 ^ 52)\<rparr>,
      \<lparr>date = ''2024-01-03'', ret = Fin (- (900719925474099 / 2 ^ 53))\<rparr>]"
proof -
  have "scenario_A \<noteq> []" by (simp add: scenario_A_def)
  then show ?thesis
    by (simp add: computePerformance_def analyse_fields scenario_A_sorted
        daily_returns_def returns_step_def ret_A1 ret_A2 del: js_div.simps)
qed

lemma scenario_A_vami:
  "vami (computePerformance scenario_A) =
     [\<lparr>date = ''2024-01-01'', v = Fin 1000\<rparr>,
      \<lparr>date = ''2024-01-02'', v = Fin 1100\<rparr>,
      \<lparr>date = ''2024-01-03'', v = Fin 990\<rparr>]"
proof -
  have ne: "scenario_A \<noteq> []" by (simp add: scenario_A_def)
  have "vami (computePerformance scenario_A) =
      vami_loop (sort_by_date scenario_A) (returns (computePerformance scenario_A))"
    using ne by (simp add: computePerformance_def analyse_fields)
  then show ?thesis using vami_A1 vami_A2
    by (simp add: scenario_A_returns scenario_A_sorted vami_loop_def vami_step_def
        del: js_mul.simps js_add.simps)
qed


section \<open>The wealth index\<close>

text \<open>
  Claim C3. For a non-empty series, \<open>computePerformance\<close> works on the copy sorted by date;
  the return at index 0 is 0 and the wealth index at index 0 is 1000; at every later index
  \<open>i\<close> the return is \<open>equity[i] / equity[i-1] - 1\<close> and the wealth index is the previous
  wealth index times \<open>1 + return[i]\<close>, in the arithmetic of the program.
\<close>

theorem wealth_index_law:
  assumes "input \<noteq> []" and "i < length input"
  shows "series (computePerformance input) = sort_by_date input \<and>
    ret (returns (computePerformance input) ! 0) = Fin 0 \<and>
    v (vami (computePerformance input) ! 0) = Fin 1000 \<and>
    (0 < i \<longrightarrow>
       ret (returns (computePerformance input) ! i) =
         js_sub (js_div (equity (sort_by_date input ! i)) (equity (sort_by_date input ! (i - 1)))) (Fin 1) \<and>
       v (vami (computePerformance input) ! i) =
         js_mul (v (vami (computePerformance input) ! (i - 1)))
                (js_add (Fin 1) (ret (returns (computePerformance input) ! i))))"
proof -
  let ?s = "sort_by_date input"
  have P: "computePerformance input = analyse ?s"
    using assms(1) by (simp add: computePerformance_def)
  have i: "i < length ?s" and z: "0 < length ?s"
    using assms by (simp_all add: length_sort_by_date)
  show ?thesis
    using i z by (simp add: P analyse_fields daily_returns_nth vami_loop_nth)
qed

text \<open>Scenario A: the wealth index is 1000, 1100, 990.\<close>

theorem wealth_index_law_witness:
  "scenario_A \<noteq> [] \<and> 2 < length scenario_A \<and>
   v (vami (computePerformance scenario_A) ! 0) = Fin 1000 \<and>
   v (vami (computePerformance scenario_A) ! 2) =
     js_mul (v (vami (computePerformance scenario_A) ! 1))
            (js_add (Fin 1) (ret (returns (computePerformance scenario_A) ! 2))) \<and>
   v (vami (computePerformance scenario_A) ! 2) = Fin 990"
proof -
  have h: "scenario_A \<noteq> []" "2 < length scenario_A" by (simp_all add: scenario_A_def)
  from wealth_index_law [OF h] show ?thesis
    using h by (simp add: scenario_A_vami)
qed

section \<open>The drawdown\<close>
















section \<open>Volatility and the Sharpe ratio\<close>
























section \<open>Properties of the equity series\<close>

lemma map_of_map_set: "map_of (map_set k x m) = (map_of m)(k \<mapsto> x)"
  by (induction m) (auto simp: fun_eq_iff)

lemma keys_map_set: "fst ` set (map_set k x m) = insert k (fst ` set m)"
proof -
  have "fst ` set (map_set k x m) = dom (map_of (map_set k x m))"
    by (simp add: dom_map_of_conv_image_fst)
  also have "\<dots> = insert k (dom (map_of m))"
    by (simp add: map_of_map_set)
  finally show ?thesis by (simp add: dom_map_of_conv_image_fst)
qed

lemma distinct_map_set: "distinct (map fst m) \<Longrightarrow> distinct (map fst (map_set k x m))"
  by (induction m) (auto simp: keys_map_set)

lemma dedupe_snoc: "dedupe (rows @ [r]) = map_set (date r) r (dedupe rows)"
  by (simp add: dedupe_def)

lemma distinct_dedupe: "distinct (map fst (dedupe rows))"
proof (induction rows rule: rev_induct)
  case Nil
  then show ?case by (simp add: dedupe_def)
next
  case (snoc r rows)
  then show ?case by (simp add: dedupe_snoc distinct_map_set)
qed

lemma map_of_dedupe:
  "map_of (dedupe rows) d =
     (if [x\<leftarrow>rows. date x = d] = [] then None else Some (last [x\<leftarrow>rows. date x = d]))"
proof (induction rows rule: rev_induct)
  case Nil
  then show ?case by (simp add: dedupe_def)
next
  case (snoc r rows)
  then show ?case by (simp add: dedupe_snoc map_of_map_set)
qed

lemma dedupe_entry:
  assumes "(d, p) \<in> set (dedupe rows)"
  shows "p = last [x\<leftarrow>rows. date x = d] \<and> [x\<leftarrow>rows. date x = d] \<noteq> [] \<and> date p = d"
proof -
  have "map_of (dedupe rows) d = Some p"
    using assms by (simp add: map_of_eq_Some_iff [OF distinct_dedupe])
  then have a: "[x\<leftarrow>rows. date x = d] \<noteq> []" "p = last [x\<leftarrow>rows. date x = d]"
    by (auto simp: map_of_dedupe split: if_splits)
  then have "p \<in> set [x\<leftarrow>rows. date x = d]" using last_in_set by blast
  then show ?thesis using a by simp
qed

lemma dedupe_dates: "map date (map snd (dedupe rows)) = map fst (dedupe rows)"
  using dedupe_entry [of _ _ rows] by (auto simp: map_eq_conv)

lemma dedupe_has:
  assumes "r \<in> set rows"
  shows "last [x\<leftarrow>rows. date x = date r] \<in> set (map snd (dedupe rows))"
proof -
  have "[x\<leftarrow>rows. date x = date r] \<noteq> []" using assms by (auto simp: filter_empty_conv)
  then have "map_of (dedupe rows) (date r) = Some (last [x\<leftarrow>rows. date x = date r])"
    by (simp add: map_of_dedupe)
  then have "(date r, last [x\<leftarrow>rows. date x = date r]) \<in> set (dedupe rows)"
    by (rule map_of_SomeD)
  then show ?thesis by force
qed

lemma filter_distinct_key:
  "distinct (map f xs) \<Longrightarrow> x \<in> set xs \<Longrightarrow> [p\<leftarrow>xs. f p = f x] = [x]"
proof (induction xs)
  case Nil
  then show ?case by simp
next
  case (Cons a xs)
  show ?case
  proof (cases "a = x")
    case True
    have "f x \<notin> f ` set xs" using Cons.prems True by simp
    then have "\<forall>p\<in>set xs. f p \<noteq> f x" by (metis imageI)
    then have "[p\<leftarrow>xs. f p = f x] = []"
      by (simp add: filter_empty_conv)
    then show ?thesis using True by simp
  next
    case False
    then have "x \<in> set xs" using Cons.prems by simp
    moreover have "f a \<noteq> f x" using Cons.prems \<open>x \<in> set xs\<close> by auto
    ultimately show ?thesis using Cons by simp
  qed
qed

lemma sorted_distinct_strict:
  "sorted (map f xs) \<Longrightarrow> distinct (map f xs) \<Longrightarrow> sorted_wrt (\<lambda>a b. f a < f b) xs"
  by (induction xs) (auto simp: less_le)

text \<open>What the deduplication and the sort make of the retained rows.\<close>

lemma series_of_rows:
  fixes rows :: "('d::linorder) point list"
  defines "out \<equiv> sort_key date (map snd (dedupe rows))"
  shows "sorted_wrt (\<lambda>a b. date a < date b) out"
    and "date ` set out = date ` set rows"
    and "r \<in> set rows \<Longrightarrow> [p\<leftarrow>out. date p = date r] = [last [x\<leftarrow>rows. date x = date r]]"
proof -
  have d: "distinct (map date out)"
  proof -
    have "distinct (map date (map snd (dedupe rows)))"
      unfolding dedupe_dates by (rule distinct_dedupe)
    then show ?thesis
      unfolding out_def by (simp only: distinct_map distinct_sort set_sort) 
  qed
  show "sorted_wrt (\<lambda>a b. date a < date b) out"
    using d by (intro sorted_distinct_strict) (simp_all add: out_def)
  show "date ` set out = date ` set rows"
  proof -
    have "date ` set out = fst ` set (dedupe rows)"
    proof -
      have "date ` set out = set (map date (map snd (dedupe rows)))"
        by (simp add: out_def image_image)
      then show ?thesis unfolding dedupe_dates by simp
    qed
    also have "\<dots> = dom (map_of (dedupe rows))" by (simp add: dom_map_of_conv_image_fst)
    also have "\<dots> = date ` set rows"
      by (auto simp: dom_def map_of_dedupe filter_empty_conv)
    finally show ?thesis .
  qed
  show "[p\<leftarrow>out. date p = date r] = [last [x\<leftarrow>rows. date x = date r]]" if r: "r \<in> set rows"
  proof -
    let ?l = "last [x\<leftarrow>rows. date x = date r]"
    have "[x\<leftarrow>rows. date x = date r] \<noteq> []" using r by (auto simp: filter_empty_conv)
    then have "?l \<in> set [x\<leftarrow>rows. date x = date r]" by (rule last_in_set)
    then have dl: "date ?l = date r" by simp
    have "?l \<in> set out" using dedupe_has [OF r] by (simp add: out_def)
    from filter_distinct_key [OF d this] show ?thesis by (simp add: dl)
  qed
qed


lemma map_rows_Inr:
  "map_rows f xs = Inr ys \<Longrightarrow> length ys = length xs \<and> (\<forall>i<length xs. f (xs ! i) = Inr (ys ! i))"
proof (induction xs arbitrary: ys)
  case Nil
  then show ?case by simp
next
  case (Cons x xs)
  then obtain y ys' where y: "f x = Inr y" "map_rows f xs = Inr ys'" "ys = y # ys'"
    by (auto split: sum.splits)
  with Cons.IH [of ys'] show ?case by (auto simp: nth_Cons split: nat.splits)
qed

lemma buildEquitySeries_Inr:
  "map_rows (row_of nyDate conv) snaps = Inr rows0 \<Longrightarrow>
     buildEquitySeries nyDate conv snaps = Inr (sort_key date (map snd (dedupe (positive_rows rows0))))"
  by (simp add: buildEquitySeries_def Let_def)

text \<open>
  Claim C5. When the rows of all snapshots can be built, \<open>buildEquitySeries\<close> returns a
  series; the rows stand in the order of the snapshots; the series is strictly ascending
  by date, so it has one point for each date; its dates are those of the retained rows
  (the rows of positive equity); and for each retained row, the one point of the series
  with its date is the last retained row of that date.
\<close>

theorem dedup_law:
  assumes "map_rows (row_of nyDate conv) snaps = Inr rows0"
  shows "length rows0 = length snaps \<and>
    (\<forall>i<length snaps. row_of nyDate conv (snaps ! i) = Inr (rows0 ! i)) \<and>
    (\<exists>out. buildEquitySeries nyDate conv snaps = Inr out \<and>
       sorted_wrt (\<lambda>a b. date a < date b) out \<and>
       date ` set out = date ` set (positive_rows rows0) \<and>
       (\<forall>r\<in>set (positive_rows rows0).
          [p\<leftarrow>out. date p = date r] = [last [x\<leftarrow>positive_rows rows0. date x = date r]]))"
proof -
  let ?out = "sort_key date (map snd (dedupe (positive_rows rows0)))"
  have "buildEquitySeries nyDate conv snaps = Inr ?out"
    using assms by (rule buildEquitySeries_Inr)
  moreover have "sorted_wrt (\<lambda>a b. date a < date b) ?out"
    by (rule series_of_rows(1))
  moreover have "date ` set ?out = date ` set (positive_rows rows0)"
    by (rule series_of_rows(2))
  moreover have "\<forall>r\<in>set (positive_rows rows0).
          [p\<leftarrow>?out. date p = date r] = [last [x\<leftarrow>positive_rows rows0. date x = date r]]"
    using series_of_rows(3) by blast
  ultimately show ?thesis using map_rows_Inr [OF assms] by blast
qed

lemma scenario_B_rows:
  "map_rows (row_of iso_day no_number) scenario_B =
     Inr [\<lparr>date = ''2024-02-01'', equity = Fin 500\<rparr>, \<lparr>date = ''2024-02-01'', equity = Fin 600\<rparr>]"
  by (simp add: scenario_B_def account_snapshot_def row_of_def Let_def)

lemma scenario_B_out:
  "buildEquitySeries iso_day no_number scenario_B = Inr [\<lparr>date = ''2024-02-01'', equity = Fin 600\<rparr>]"
  by (simp add: buildEquitySeries_Inr [OF scenario_B_rows] positive_rows_def js_gt_def dedupe_def)

text \<open>Scenario B: of 500 and 600 on one day, the series keeps 600.\<close>

theorem dedup_law_witness:
  "map_rows (row_of iso_day no_number) scenario_B =
     Inr [\<lparr>date = ''2024-02-01'', equity = Fin 500\<rparr>, \<lparr>date = ''2024-02-01'', equity = Fin 600\<rparr>] \<and>
   buildEquitySeries iso_day no_number scenario_B = Inr [\<lparr>date = ''2024-02-01'', equity = Fin 600\<rparr>] \<and>
   [p\<leftarrow>[\<lparr>date = ''2024-02-01'', equity = Fin 600\<rparr>]. date p = ''2024-02-01'']
     = [last [x\<leftarrow>positive_rows [\<lparr>date = ''2024-02-01'', equity = Fin 500\<rparr>,
                \<lparr>date = ''2024-02-01'', equity = Fin 600\<rparr>]. date x = ''2024-02-01'']]"
  using dedup_law [OF scenario_B_rows]
  by (simp add: scenario_B_rows scenario_B_out positive_rows_def js_gt_def)

lemma last_positive:
  assumes i: "i < length rows0" and p: "js_gt (equity (rows0 ! i)) (Fin 0)"
    and later: "\<forall>k. i < k \<and> k < length rows0 \<and> date (rows0 ! k) = date (rows0 ! i)
                  \<longrightarrow> \<not> js_gt (equity (rows0 ! k)) (Fin 0)"
  shows "last [x\<leftarrow>positive_rows rows0. date x = date (rows0 ! i)] = rows0 ! i"
proof -
  let ?P = "\<lambda>x. js_gt (equity x) (Fin 0) \<and> date x = date (rows0 ! i)"
  have split: "rows0 = take i rows0 @ rows0 ! i # drop (Suc i) rows0"
    using i by (simp add: id_take_nth_drop)
  have "\<forall>x\<in>set (drop (Suc i) rows0). \<not> ?P x"
  proof
    fix x assume "x \<in> set (drop (Suc i) rows0)"
    then obtain n where n: "n < length rows0 - Suc i" "x = rows0 ! (Suc i + n)"
      by (auto simp: in_set_conv_nth)
    moreover from n have "i < Suc i + n" "Suc i + n < length rows0" by simp_all
    ultimately show "\<not> ?P x" using later by blast
  qed
  then have e: "filter ?P (drop (Suc i) rows0) = []" by (simp add: filter_empty_conv)
  have "filter ?P rows0 = filter ?P (take i rows0) @ [rows0 ! i]"
    by (subst split) (simp add: e p)
  then show ?thesis by (simp add: positive_rows_def conj_commute)
qed

text \<open>
  Claim C9, amended. Rows of non-positive equity are dropped before the deduplication:
  when the row at position \<open>i\<close> has positive equity, a later row \<open>j\<close> has the same date,
  and no row after \<open>i\<close> of that date has positive equity, then row \<open>j\<close> has no positive
  equity, the series has exactly the row \<open>i\<close> for that date, and row \<open>j\<close> is not in the
  series. So the date keeps the point of its last snapshot of positive equity.
\<close>

theorem filter_before_dedup:
  assumes rows: "map_rows (row_of nyDate conv) snaps = Inr rows0"
    and ij: "i < j" "j < length rows0" and same: "date (rows0 ! j) = date (rows0 ! i)"
    and p: "js_gt (equity (rows0 ! i)) (Fin 0)"
    and later: "\<forall>k. i < k \<and> k < length rows0 \<and> date (rows0 ! k) = date (rows0 ! i)
                  \<longrightarrow> \<not> js_gt (equity (rows0 ! k)) (Fin 0)"
  shows "\<not> js_gt (equity (rows0 ! j)) (Fin 0) \<and>
    (\<exists>out. buildEquitySeries nyDate conv snaps = Inr out \<and>
       [p\<leftarrow>out. date p = date (rows0 ! i)] = [rows0 ! i] \<and> rows0 ! j \<notin> set out)"
proof -
  let ?out = "sort_key date (map snd (dedupe (positive_rows rows0)))"
  have i: "i < length rows0" using ij by simp
  have nj: "\<not> js_gt (equity (rows0 ! j)) (Fin 0)" using later ij same by blast
  have out: "buildEquitySeries nyDate conv snaps = Inr ?out"
    using rows by (rule buildEquitySeries_Inr)
  have "rows0 ! i \<in> set (positive_rows rows0)"
    using i p by (simp add: positive_rows_def)
  from series_of_rows(3) [OF this]
  have one: "[p\<leftarrow>?out. date p = date (rows0 ! i)] = [rows0 ! i]"
    by (simp add: last_positive [OF i p later])
  have "rows0 ! j \<notin> set ?out"
  proof
    assume "rows0 ! j \<in> set ?out"
    then have "rows0 ! j \<in> set [p\<leftarrow>?out. date p = date (rows0 ! i)]" using same by simp
    then have "rows0 ! j = rows0 ! i" unfolding one by simp
    then show False using nj p by simp
  qed
  then show ?thesis using nj out one by blast
qed

lemma later_unusable_rows:
  "map_rows (row_of iso_day no_number) later_unusable =
     Inr [\<lparr>date = ''2024-02-01'', equity = Fin 500\<rparr>, \<lparr>date = ''2024-02-01'', equity = Fin 0\<rparr>,
          \<lparr>date = ''2024-02-01'', equity = NaN\<rparr>]"
  by (simp add: later_unusable_def account_snapshot_def bare_snapshot_def row_of_def Let_def
      no_number_def)

text \<open>
  A day with equity 500, then a snapshot without account data (equity 0) and one whose
  value is no number (NaN): the series keeps 500.
\<close>

theorem filter_before_dedup_witness:
  "map_rows (row_of iso_day no_number) later_unusable =
     Inr [\<lparr>date = ''2024-02-01'', equity = Fin 500\<rparr>, \<lparr>date = ''2024-02-01'', equity = Fin 0\<rparr>,
          \<lparr>date = ''2024-02-01'', equity = NaN\<rparr>] \<and>
   buildEquitySeries iso_day no_number later_unusable = Inr [\<lparr>date = ''2024-02-01'', equity = Fin 500\<rparr>]"
proof -
  let ?rows = "[\<lparr>date = ''2024-02-01'', equity = Fin 500\<rparr>, \<lparr>date = ''2024-02-01'', equity = Fin 0\<rparr>,
          \<lparr>date = ''2024-02-01'', equity = NaN\<rparr>]"
  have later: "\<forall>k. 0 < k \<and> k < length ?rows \<and> date (?rows ! k) = date (?rows ! 0)
                  \<longrightarrow> \<not> js_gt (equity (?rows ! k)) (Fin 0)"
    by (auto simp: js_gt_def nth_Cons split: nat.splits)
  from filter_before_dedup [OF later_unusable_rows, of 0 2, OF _ _ _ _ later]
  obtain out where out: "buildEquitySeries iso_day no_number later_unusable = Inr out"
    "[p\<leftarrow>out. date p = ''2024-02-01''] = [\<lparr>date = ''2024-02-01'', equity = Fin 500\<rparr>]"
    by (auto simp: js_gt_def)
  have "buildEquitySeries iso_day no_number later_unusable = Inr [\<lparr>date = ''2024-02-01'', equity = Fin 500\<rparr>]"
    by (simp add: buildEquitySeries_Inr [OF later_unusable_rows] positive_rows_def js_gt_def dedupe_def)
  then show ?thesis using later_unusable_rows out by simp
qed

lemma two_then_unusable_rows:
  "map_rows (row_of iso_day no_number) two_then_unusable =
     Inr [\<lparr>date = ''2024-02-01'', equity = Fin 500\<rparr>, \<lparr>date = ''2024-02-01'', equity = Fin 600\<rparr>,
          \<lparr>date = ''2024-02-01'', equity = Fin 0\<rparr>]"
  by (simp add: two_then_unusable_def account_snapshot_def bare_snapshot_def row_of_def Let_def)

text \<open>
  Claim C9 as stated fails when the earlier snapshot is not the last of positive equity:
  of 500, 600 and a snapshot with no account data on one day, the earlier snapshot with
  500 has positive equity and the later one has none, and the series keeps 600, not 500.
\<close>

theorem filter_before_dedup_counterexample:
  "map_rows (row_of iso_day no_number) two_then_unusable =
     Inr [\<lparr>date = ''2024-02-01'', equity = Fin 500\<rparr>, \<lparr>date = ''2024-02-01'', equity = Fin 600\<rparr>,
          \<lparr>date = ''2024-02-01'', equity = Fin 0\<rparr>] \<and>
   buildEquitySeries iso_day no_number two_then_unusable
     = Inr [\<lparr>date = ''2024-02-01'', equity = Fin 600\<rparr>]"
  by (simp add: buildEquitySeries_Inr [OF two_then_unusable_rows] two_then_unusable_rows
      positive_rows_def js_gt_def dedupe_def)


section \<open>Properties of the verifier\<close>

lemma text_of_bytes_of: "text_of (bytes_of s) = s"
proof -
  have "char_of (unat (of_nat (of_char c) :: byte)) = c" for c :: char
  proof -
    have "(of_char c :: nat) < 256" by (rule nat_of_char_less_256)
    then have "unat (of_nat (of_char c) :: byte) = of_char c"
      by (simp add: unat_of_nat)
    then show ?thesis by simp
  qed
  then show ?thesis by (simp add: text_of_def bytes_of_def map_idI)
qed

lemma hex_digits_lower: "list_all (\<lambda>n. lower_char (hex_digit n) = hex_digit n) [0..<16]"
  by code_simp

lemma hex_digits_not_x: "list_all (\<lambda>n. hex_digit n \<noteq> CHR ''x'') [0..<16]"
  by code_simp

lemma lower_hex_digit: "n < 16 \<Longrightarrow> lower_char (hex_digit n) = hex_digit n"
  using hex_digits_lower by (simp add: list_all_iff)

lemma toLowerCase_toHex: "toLowerCase (toHex u8) = toHex u8"
proof -
  have "unat b div 16 < 16" "unat b mod 16 < 16" for b :: byte
    using unsigned_less [of b, where 'a = nat] by simp_all
  then show ?thesis
    by (induction u8) (simp_all add: toLowerCase_def toHex_def lower_hex_digit)
qed

lemma toHex_no_x: "CHR ''x'' \<notin> set (toHex u8)"
proof -
  have a: "hex_digit n \<noteq> CHR ''x''" if "n < 16" for n
    using hex_digits_not_x that by (simp add: list_all_iff)
  have "unat b div 16 < 16" "unat b mod 16 < 16" for b :: byte
    using unsigned_less [of b, where 'a = nat] by simp_all
  then have "hex_digit (unat b div 16) \<noteq> CHR ''x''" "hex_digit (unat b mod 16) \<noteq> CHR ''x''"
    for b :: byte
    by (simp_all add: a)
  then show ?thesis
    by (induction u8) (simp_all add: toHex_def eq_commute [of "CHR ''x''"])
qed


lemma embedded_digest_Inr:
  "(\<exists>inFile. embedded_digest j = Inr inFile) \<longleftrightarrow>
     (\<not> truthy (get j ''sha256'') \<or> (\<exists>s. get j ''sha256'' = Some (JStr s)))"
proof (cases "get j ''sha256''")
  case None
  then show ?thesis by (simp add: embedded_digest_def)
next
  case (Some m)
  then show ?thesis by (cases m) (simp_all add: embedded_digest_def)
qed

lemma verify_bytes_Inr:
  assumes "verify_bytes E expectedHex u bytes = Inr r"
  shows "\<exists>j inFile.
      JSON_parse E (decode E bytes) = Some j \<and> j \<noteq> JNull \<and>
      embedded_digest j = Inr inFile \<and>
      \<not> startsWith (decode E bytes) ''<!DOCTYPE'' \<and> \<not> startsWith (decode E bytes) ''<html'' \<and>
      json r = Some j \<and> url r = u \<and>
      sha256_file r = toHex (sha256_digest E bytes) \<and>
      sha256_canonical r =
        toHex (sha256_digest E (encode E (stableStringify (JSON_stringify E) (delete_member ''sha256'' j)))) \<and>
      sha256_expected r = (if inFile \<noteq> [] then Some inFile else None) \<and>
      (ok r, mode r) = decide (normalise_expected expectedHex) inFile (sha256_file r) (sha256_canonical r)"
proof -
  have html: "\<not> startsWith (decode E bytes) ''<!DOCTYPE''" "\<not> startsWith (decode E bytes) ''<html''"
    using assms by (auto simp: verify_bytes_def Let_def split: if_splits)
  obtain j where j: "JSON_parse E (decode E bytes) = Some j"
    using assms html by (cases "JSON_parse E (decode E bytes)") (simp_all add: verify_bytes_def Let_def)
  have nn: "j \<noteq> JNull"
    using assms html j by (auto simp: verify_bytes_def Let_def)
  obtain inFile where e: "embedded_digest j = Inr inFile"
    using assms html j nn by (cases "embedded_digest j") (simp_all add: verify_bytes_def Let_def)
  obtain b m where d: "decide (normalise_expected expectedHex) inFile (toHex (sha256_digest E bytes))
      (toHex (sha256_digest E (encode E (stableStringify (JSON_stringify E) (delete_member ''sha256'' j))))) = (b, m)"
    by (meson surj_pair)
  have "r = \<lparr>json = Some j, ok = b, mode = m,
       sha256_onchain = (if truthy (map_option JStr expectedHex) then expectedHex else None),
       sha256_expected = (if inFile \<noteq> [] then Some inFile else None),
       sha256_file = toHex (sha256_digest E bytes),
       sha256_canonical =
         toHex (sha256_digest E (encode E (stableStringify (JSON_stringify E) (delete_member ''sha256'' j)))),
       url = u\<rparr>"
    using assms html j nn e d by (simp add: verify_bytes_def Let_def toLowerCase_toHex)
  then show ?thesis using html j nn e d by simp
qed

lemma verify_bytes_total:
  assumes "JSON_parse E (decode E bytes) = Some j" and "j \<noteq> JNull"
    and "\<not> startsWith (decode E bytes) ''<!DOCTYPE''" and "\<not> startsWith (decode E bytes) ''<html''"
    and "\<not> truthy (get j ''sha256'') \<or> (\<exists>s. get j ''sha256'' = Some (JStr s))"
  shows "\<exists>r. verify_bytes E expectedHex u bytes = Inr r"
proof -
  from assms(5) obtain inFile where "embedded_digest j = Inr inFile"
    using embedded_digest_Inr by blast
  then show ?thesis using assms(1-4)
    by (simp add: verify_bytes_def Let_def split: prod.splits)
qed

lemma try_gateway_Inr:
  assumes "try_gateway E expectedHex u w = (Inr r, w')"
  shows "\<exists>res bytes. fetchWithTimeout E (fetches w) u = Inr res \<and> res_ok res \<and>
      body res = Inr bytes \<and> verify_bytes E expectedHex u bytes = Inr r"
  using assms by (auto simp: try_gateway_def Let_def split: sum.splits if_splits)

lemma gateway_loop_Inr:
  "gateway_loop E expectedHex us lastErr w = (Inr r, w') \<Longrightarrow>
     \<exists>u n res bytes. u \<in> set us \<and> fetchWithTimeout E n u = Inr res \<and> res_ok res \<and>
       body res = Inr bytes \<and> verify_bytes E expectedHex u bytes = Inr r"
proof (induction us arbitrary: lastErr w)
  case Nil
  then show ?case by simp
next
  case (Cons u us)
  obtain x w1 where t: "try_gateway E expectedHex u w = (x, w1)" by (cases "try_gateway E expectedHex u w")
  show ?case
  proof (cases x)
    case (Inl e)
    with Cons.prems t have "gateway_loop E expectedHex us (Some e) w1 = (Inr r, w')" by simp
    from Cons.IH [OF this] show ?thesis by auto
  next
    case (Inr r1)
    with Cons.prems t have "r1 = r" by simp
    with t Inr try_gateway_Inr [of E expectedHex u w r w1] show ?thesis by auto
  qed
qed

lemma fetchAndVerifyByCID_Inr:
  assumes "fetchAndVerifyByCID E pointer expectedHex w = (Inr r, w')"
  shows "\<exists>p u n res bytes. pointer = Some p \<and> u \<in> set (gateways p) \<and>
       fetchWithTimeout E n u = Inr res \<and> res_ok res \<and>
       body res = Inr bytes \<and> verify_bytes E expectedHex u bytes = Inr r"
proof -
  from assms obtain p where p: "pointer = Some p"
    by (cases pointer) (auto simp: fetchAndVerifyByCID_def Let_def)
  with assms have "gateway_loop E expectedHex (gateways p) None (w\<lparr>calls := calls w + 1\<rparr>) = (Inr r, w')"
    by (simp add: fetchAndVerifyByCID_def Let_def split: if_splits)
  from gateway_loop_Inr [OF this] p show ?thesis by blast
qed


lemma example_env_simps:
  "fetchWithTimeout (example_env t reg) n u = Inr \<lparr>status = 200, body = Inr (bytes_of t)\<rparr>"
  "decode (example_env t reg) = text_of" "encode (example_env t reg) = bytes_of"
  "JSON_parse (example_env t reg) = example_parse"
  "JSON_stringify (example_env t reg) = example_stringify"
  "sha256_digest (example_env t reg) = example_digest"
  "getSnapshot (example_env t reg) = reg"
  by (simp_all add: example_env_def)

lemma example_hashes:
  "toHex (example_digest (bytes_of payload_null)) = ''04ab''"
  "toHex (example_digest (bytes_of payload_number)) = ''0cab''"
  "toHex (example_digest (bytes_of payload_bare)) = ''11ab''"
  "toHex (example_digest (bytes_of payload_prefixed)) = ''13ab''"
  "toHex (example_digest (bytes_of payload_empty)) = ''02ab''"
  by (simp_all add: toHex_def example_digest_def bytes_of_def hex_digit_def
      payload_null_def payload_number_def payload_bare_def payload_prefixed_def payload_empty_def)

lemma example_parses:
  "example_parse payload_null = Some JNull"
  "example_parse payload_empty = Some (JObj [])"
  "example_parse payload_number = Some (JObj [(''sha256'', JNum (Fin 5))])"
  "example_parse payload_bare = Some (JObj [(''sha256'', JStr ''02AB'')])"
  "example_parse payload_prefixed = Some (JObj [(''sha256'', JStr ''0x02AB'')])"
  by (simp_all add: example_parse_def
      payload_null_def payload_number_def payload_bare_def payload_prefixed_def payload_empty_def)

lemma example_not_html:
  "\<not> startsWith payload_null ''<!DOCTYPE''" "\<not> startsWith payload_null ''<html''"
  "\<not> startsWith payload_empty ''<!DOCTYPE''" "\<not> startsWith payload_empty ''<html''"
  "\<not> startsWith payload_number ''<!DOCTYPE''" "\<not> startsWith payload_number ''<html''"
  "\<not> startsWith payload_bare ''<!DOCTYPE''" "\<not> startsWith payload_bare ''<html''"
  "\<not> startsWith payload_prefixed ''<!DOCTYPE''" "\<not> startsWith payload_prefixed ''<html''"
  by (simp_all add: startsWith_def
      payload_null_def payload_number_def payload_bare_def payload_prefixed_def payload_empty_def)


lemma verify_null:
  "verify_bytes (example_env t reg) e u (bytes_of payload_null) = Inl TypeError"
  by (simp add: verify_bytes_def Let_def example_env_simps text_of_bytes_of example_parses
      example_not_html)

lemma verify_number:
  "verify_bytes (example_env t reg) e u (bytes_of payload_number) = Inl TypeError"
  by (simp add: verify_bytes_def Let_def example_env_simps text_of_bytes_of example_parses
      example_not_html embedded_digest_def)

lemma verify_bare:
  "verdict (verify_bytes (example_env t reg) e u (bytes_of payload_bare)) =
     Inr (decide (normalise_expected e) ''02ab'' ''11ab'' ''02ab'')"
  by (simp add: verify_bytes_def Let_def example_env_simps text_of_bytes_of example_parses
      example_not_html embedded_digest_def verdict_def example_hashes
      example_hashes(5) [unfolded payload_empty_def] toLowerCase_def lower_char_def
      split: prod.splits)

lemma verify_prefixed:
  "verdict (verify_bytes (example_env t reg) e u (bytes_of payload_prefixed)) =
     Inr (decide (normalise_expected e) ''0x02ab'' ''13ab'' ''02ab'')"
  by (simp add: verify_bytes_def Let_def example_env_simps text_of_bytes_of example_parses
      example_not_html embedded_digest_def verdict_def example_hashes
      example_hashes(5) [unfolded payload_empty_def] toLowerCase_def lower_char_def
      split: prod.splits)

lemma verify_empty:
  "verdict (verify_bytes (example_env t reg) e u (bytes_of payload_empty)) =
     Inr (decide (normalise_expected e) [] ''02ab'' ''02ab'')"
  by (simp add: verify_bytes_def Let_def example_env_simps text_of_bytes_of example_parses
      example_not_html embedded_digest_def verdict_def example_hashes
      example_hashes(5) [unfolded payload_empty_def] toLowerCase_def lower_char_def
      split: prod.splits)

lemma fetch_example:
  "p \<noteq> [] \<Longrightarrow> verdict (fst (fetchAndVerifyByCID (example_env t reg) (Some p) e w)) =
     (case verdict (verify_bytes (example_env t reg) e (hd (gateways p)) (bytes_of t)) of
        Inr x \<Rightarrow> Inr x
      | Inl err \<Rightarrow>
         (case verdict (verify_bytes (example_env t reg) e (hd (tl (gateways p))) (bytes_of t)) of
            Inr x \<Rightarrow> Inr x
          | Inl err \<Rightarrow> verdict (verify_bytes (example_env t reg) e (hd (tl (tl (gateways p)))) (bytes_of t))))"
  by (simp add: fetchAndVerifyByCID_def Let_def gateways_def try_gateway_def example_env_simps
      res_ok_def verdict_def split: sum.splits)


lemma decide_on_chain:
  "expected \<noteq> [] \<Longrightarrow> decide expected inFile fileHash canonicalHash
     = (fileHash = expected, ''on-chain-file-bytes'')"
  by (simp add: decide_def)

lemma verdict_simps:
  "verdict (Inl e) = Inl e" "verdict (Inr r) = Inr (ok r, mode r)"
  by (simp_all add: verdict_def)

section \<open>The decision of the verifier\<close>

text \<open>
  Claim C1, amended. For every fetched payload that parses as JSON (its text then does not
  begin like an HTML page) to a value other than \<^verbatim>\<open>null\<close> whose member \<^verbatim>\<open>sha256\<close> is
  missing, falsy or a string, when the expected digest is not empty after lowercasing and
  stripping a \<^verbatim>\<open>0x\<close> prefix, the verifier returns a result; \<^verbatim>\<open>ok\<close> is true if and only if the hexadecimal SHA-256 digest of the
  raw bytes equals that normalised expected digest, and the mode is
  \<^verbatim>\<open>on-chain-file-bytes\<close>: the embedded digest has no part in \<^verbatim>\<open>ok\<close>. The same holds of
  every result that \<^verbatim>\<open>fetchAndVerifyByCID\<close> returns for such an expected digest.
\<close>

theorem on_chain_digest_decides:
  assumes parse: "JSON_parse E (decode E bytes) = Some j" and nn: "j \<noteq> JNull"
    and html: "\<not> startsWith (decode E bytes) ''<!DOCTYPE''" "\<not> startsWith (decode E bytes) ''<html''"
    and emb: "\<not> truthy (get j ''sha256'') \<or> (\<exists>s. get j ''sha256'' = Some (JStr s))"
    and sup: "strip_0x (toLowerCase e) \<noteq> []"
  shows "(\<exists>r. verify_bytes E (Some e) u bytes = Inr r \<and> json r = Some j \<and>
            ok r = (toHex (sha256_digest E bytes) = strip_0x (toLowerCase e)) \<and>
            mode r = ''on-chain-file-bytes'') \<and>
    (\<forall>pointer w r w'. fetchAndVerifyByCID E pointer (Some e) w = (Inr r, w') \<longrightarrow>
            ok r = (sha256_file r = strip_0x (toLowerCase e)) \<and> mode r = ''on-chain-file-bytes'')"
proof -
  have n: "normalise_expected (Some e) = strip_0x (toLowerCase e)"
    by (simp add: normalise_expected_def)
  from verify_bytes_total [OF parse nn html emb]
  obtain r where r: "verify_bytes E (Some e) u bytes = Inr r" by blast
  from verify_bytes_Inr [OF r] parse obtain inFile where
    "json r = Some j" "sha256_file r = toHex (sha256_digest E bytes)"
    "(ok r, mode r) = decide (normalise_expected (Some e)) inFile (sha256_file r) (sha256_canonical r)"
    by auto
  then have a: "json r = Some j \<and> ok r = (toHex (sha256_digest E bytes) = strip_0x (toLowerCase e)) \<and>
            mode r = ''on-chain-file-bytes''"
    using sup by (simp add: n decide_on_chain)
  have b: "ok r' = (sha256_file r' = strip_0x (toLowerCase e)) \<and> mode r' = ''on-chain-file-bytes''"
    if "fetchAndVerifyByCID E pointer (Some e) w = (Inr r', w')" for pointer w r' w'
  proof -
    from fetchAndVerifyByCID_Inr [OF that] obtain u' bytes' where
      "verify_bytes E (Some e) u' bytes' = Inr r'" by blast
    from verify_bytes_Inr [OF this] obtain inFile' where
      "(ok r', mode r') = decide (normalise_expected (Some e)) inFile' (sha256_file r') (sha256_canonical r')"
      by auto
    then show ?thesis using sup by (simp add: n decide_on_chain)
  qed
  from r a b show ?thesis by blast
qed

text \<open>
  A payload that embeds the digest 02AB and whose bytes have the digest 11ab verifies
  against the expected digest 0x11AB.
\<close>

theorem on_chain_digest_decides_witness:
  "JSON_parse (example_env payload_bare registry_ok)
      (decode (example_env payload_bare registry_ok) (bytes_of payload_bare))
     = Some (JObj [(''sha256'', JStr ''02AB'')]) \<and>
   get (JObj [(''sha256'', JStr ''02AB'')]) ''sha256'' = Some (JStr ''02AB'') \<and>
   strip_0x (toLowerCase ''0x11AB'') = ''11ab'' \<and>
   toHex (sha256_digest (example_env payload_bare registry_ok) (bytes_of payload_bare)) = ''11ab'' \<and>
   verdict (verify_bytes (example_env payload_bare registry_ok) (Some ''0x11AB'') ''gateway''
              (bytes_of payload_bare)) = Inr (True, ''on-chain-file-bytes'') \<and>
   verdict (fst (fetchAndVerifyByCID (example_env payload_bare registry_ok)
      (Some ''bafyexample'') (Some ''0x11AB'') world0)) = Inr (True, ''on-chain-file-bytes'')"
proof -
  let ?E = "example_env payload_bare registry_ok"
  have p: "JSON_parse ?E (decode ?E (bytes_of payload_bare)) = Some (JObj [(''sha256'', JStr ''02AB'')])"
    by (simp add: example_env_simps text_of_bytes_of example_parses)
  have h: "\<not> startsWith (decode ?E (bytes_of payload_bare)) ''<!DOCTYPE''"
    "\<not> startsWith (decode ?E (bytes_of payload_bare)) ''<html''"
    by (simp_all add: example_env_simps text_of_bytes_of example_not_html)
  have n: "strip_0x (toLowerCase ''0x11AB'') = ''11ab''"
    by (simp add: strip_0x_def toLowerCase_def lower_char_def startsWith_def)
  have d: "toHex (sha256_digest ?E (bytes_of payload_bare)) = ''11ab''"
    by (simp add: example_env_simps example_hashes)
  have f: "verdict (fst (fetchAndVerifyByCID ?E (Some ''bafyexample'') (Some ''0x11AB'') world0))
      = Inr (True, ''on-chain-file-bytes'')"
    using n by (simp add: fetch_example verify_bare verdict_simps normalise_expected_def decide_def)
  from on_chain_digest_decides [OF p _ h, of "''0x11AB''" "''gateway''"]
  show ?thesis using p n d f by (auto simp: verdict_def)
qed

text \<open>
  Claim C1 as stated fails. The payloads \<^verbatim>\<open>null\<close> and \<^verbatim>\<open>{"sha256":5}\<close> parse as JSON and
  the expected digest equals the digest of their bytes, yet every gateway ends in a
  TypeError and no result is returned; and with the expected digest \<^verbatim>\<open>0x\<close>, which is
  not null, the mode is that of the embedded digest.
\<close>

theorem on_chain_digest_decides_counterexample:
  "toHex (example_digest (bytes_of payload_null)) = strip_0x (toLowerCase ''0x04AB'') \<and>
   verdict (fst (fetchAndVerifyByCID (example_env payload_null registry_ok)
      (Some ''bafyexample'') (Some ''0x04AB'') world0)) = Inl TypeError \<and>
   toHex (example_digest (bytes_of payload_number)) = strip_0x (toLowerCase ''0x0CAB'') \<and>
   verdict (fst (fetchAndVerifyByCID (example_env payload_number registry_ok)
      (Some ''bafyexample'') (Some ''0x0CAB'') world0)) = Inl TypeError \<and>
   verdict (fst (fetchAndVerifyByCID (example_env payload_bare registry_ok)
      (Some ''bafyexample'') (Some ''0x'') world0)) = Inr (True, ''canonical-minus-sha256'')"
  by (simp add: fetch_example verify_null verify_number verify_bare example_hashes verdict_simps
      strip_0x_def toLowerCase_def lower_char_def startsWith_def normalise_expected_def decide_def)


lemma decide_cases:
  assumes "(b, m) = decide expected inFile fileHash canonicalHash"
  shows "(expected \<noteq> [] \<longrightarrow> m = ''on-chain-file-bytes'' \<and> b = (fileHash = expected)) \<and>
    (expected = [] \<longrightarrow>
       (m = ''file-bytes'' \<and> b \<and> inFile \<noteq> [] \<and> inFile = fileHash) \<or>
       (m = ''canonical-minus-sha256'' \<and> b \<and> inFile \<noteq> [] \<and> inFile = canonicalHash \<and> inFile \<noteq> fileHash) \<or>
       (m = [] \<and> \<not> b \<and> (inFile = [] \<or> (inFile \<noteq> fileHash \<and> inFile \<noteq> canonicalHash))))"
  using assms by (auto simp: decide_def split: if_splits)

text \<open>
  Claim C8, amended. For every result that \<^verbatim>\<open>fetchAndVerifyByCID\<close> returns: when an
  expected digest is supplied (not empty after normalisation) the mode is
  \<^verbatim>\<open>on-chain-file-bytes\<close> whether or not the digests match, and \<^verbatim>\<open>ok\<close> tells whether the
  digest of the raw bytes equals it; when none is supplied, a mode of the embedded digest
  is reported only when its comparison matched, and then \<^verbatim>\<open>ok\<close> is true, and the mode is
  empty exactly when neither comparison matched, and then \<^verbatim>\<open>ok\<close> is false. So a result
  that is not \<^verbatim>\<open>ok\<close> has the empty mode or the on-chain mode.
\<close>

theorem mode_of_result:
  assumes "fetchAndVerifyByCID E pointer expectedHex w = (Inr r, w')"
  shows "(normalise_expected expectedHex \<noteq> [] \<longrightarrow>
       mode r = ''on-chain-file-bytes'' \<and> ok r = (sha256_file r = normalise_expected expectedHex)) \<and>
    (normalise_expected expectedHex = [] \<longrightarrow>
       (mode r = ''file-bytes'' \<and> ok r \<and> sha256_expected r = Some (sha256_file r)) \<or>
       (mode r = ''canonical-minus-sha256'' \<and> ok r \<and> sha256_expected r = Some (sha256_canonical r)
          \<and> sha256_expected r \<noteq> Some (sha256_file r)) \<or>
       (mode r = [] \<and> \<not> ok r \<and> sha256_expected r \<noteq> Some (sha256_file r)
          \<and> sha256_expected r \<noteq> Some (sha256_canonical r))) \<and>
    (\<not> ok r \<longrightarrow> mode r = [] \<or> mode r = ''on-chain-file-bytes'')"
proof -
  from fetchAndVerifyByCID_Inr [OF assms] obtain u bytes where
    "verify_bytes E expectedHex u bytes = Inr r" by blast
  from verify_bytes_Inr [OF this] obtain inFile where
    e: "sha256_expected r = (if inFile \<noteq> [] then Some inFile else None)"
    and d: "(ok r, mode r) = decide (normalise_expected expectedHex) inFile (sha256_file r) (sha256_canonical r)"
    by auto
  from decide_cases [OF d] e show ?thesis by (cases "inFile = []") auto
qed

lemma normalise_none: "normalise_expected None = []"
  by (simp add: normalise_expected_def strip_0x_def startsWith_def toLowerCase_def)

lemma fetch_bare_none:
  "fetchAndVerifyByCID (example_env payload_bare registry_ok) (Some ''bafyexample'') None world0 =
     (Inr \<lparr>json = Some (JObj [(''sha256'', JStr ''02AB'')]), ok = True,
           mode = ''canonical-minus-sha256'', sha256_onchain = None,
           sha256_expected = Some ''02ab'', sha256_file = ''11ab'', sha256_canonical = ''02ab'',
           url = ''https://bafyexample.ipfs.w3s.link''\<rparr>,
      \<lparr>fetches = 1, calls = 1, warnings = []\<rparr>)"
  by (simp add: fetchAndVerifyByCID_def Let_def gateways_def try_gateway_def example_env_simps
      res_ok_def world0_def verify_bytes_def text_of_bytes_of example_parses example_not_html
      embedded_digest_def example_hashes example_hashes(5) [unfolded payload_empty_def]
      toLowerCase_def lower_char_def normalise_none decide_def)

text \<open>A result in the mode of the canonical digest, with no expected digest.\<close>

theorem mode_of_result_witness:
  "fetchAndVerifyByCID (example_env payload_bare registry_ok) (Some ''bafyexample'') None world0 =
     (Inr \<lparr>json = Some (JObj [(''sha256'', JStr ''02AB'')]), ok = True,
           mode = ''canonical-minus-sha256'', sha256_onchain = None,
           sha256_expected = Some ''02ab'', sha256_file = ''11ab'', sha256_canonical = ''02ab'',
           url = ''https://bafyexample.ipfs.w3s.link''\<rparr>,
      \<lparr>fetches = 1, calls = 1, warnings = []\<rparr>) \<and>
   normalise_expected None = []"
  using mode_of_result [OF fetch_bare_none]
  by (simp add: fetch_bare_none normalise_none)

text \<open>
  Claim C8 as stated fails: with an expected digest that does not match, the result is
  not \<^verbatim>\<open>ok\<close> and its mode is \<^verbatim>\<open>on-chain-file-bytes\<close>, not the empty mode.
\<close>

theorem mode_of_result_counterexample:
  "verdict (fst (fetchAndVerifyByCID (example_env payload_empty registry_ok)
      (Some ''bafyexample'') (Some ''0x00ff'') world0)) = Inr (False, ''on-chain-file-bytes'')"
  by (simp add: fetch_example verify_empty verdict_simps
      strip_0x_def toLowerCase_def lower_char_def startsWith_def normalise_expected_def decide_def)


lemma toLowerCase_0x:
  "toLowerCase (CHR ''0'' # CHR ''x'' # h) = CHR ''0'' # CHR ''x'' # toLowerCase h"
  "toLowerCase (CHR ''0'' # CHR ''X'' # h) = CHR ''0'' # CHR ''x'' # toLowerCase h"
  by (simp_all add: toLowerCase_def lower_char_def)

lemma strip_0x_prefixed: "strip_0x (CHR ''0'' # CHR ''x'' # s) = s"
  by (simp add: strip_0x_def startsWith_def)

lemma hex_chars_lower: "list_all (\<lambda>c. lower_char c \<noteq> CHR ''x'') ''0123456789abcdefABCDEF''"
  by (simp add: lower_char_def)

lemma is_hex_no_x: "is_hex h \<Longrightarrow> CHR ''x'' \<notin> set (toLowerCase h)"
proof -
  assume "is_hex h"
  then have "\<forall>c\<in>set h. lower_char c \<noteq> CHR ''x''"
    using hex_chars_lower unfolding is_hex_def list_all_iff by blast
  then show ?thesis by (auto simp: toLowerCase_def)
qed

lemma startsWith_0x_has_x: "startsWith s ''0x'' \<Longrightarrow> CHR ''x'' \<in> set s"
  by (cases s; cases "tl s") (auto simp: startsWith_def)

lemma strip_0x_hex: "is_hex h \<Longrightarrow> strip_0x (toLowerCase h) = toLowerCase h"
  using is_hex_no_x startsWith_0x_has_x by (auto simp: strip_0x_def)

lemma normalise_hex:
  assumes "is_hex h"
  shows "normalise_expected (Some h) = toLowerCase h"
    and "normalise_expected (Some (''0x'' @ h)) = toLowerCase h"
    and "normalise_expected (Some (''0X'' @ h)) = toLowerCase h"
  using assms
  by (simp_all add: normalise_expected_def strip_0x_hex toLowerCase_0x strip_0x_prefixed)

lemma verify_bytes_expected_cong:
  assumes "normalise_expected e1 = normalise_expected e2"
  shows "verdict (verify_bytes E e1 u bytes) = verdict (verify_bytes E e2 u bytes)"
  using assms
  by (simp add: verify_bytes_def Let_def verdict_def split: option.splits sum.splits prod.splits)

text \<open>
  What the comparisons of the verifier are insensitive to. The comparison of the expected
  digest with the raw digest is insensitive to the case of the hexadecimal letters and to a
  leading \<^verbatim>\<open>0x\<close> or \<^verbatim>\<open>0X\<close> of the expected digest: two spellings of the same hexadecimal
  digits normalise to the same string and give the same verdict. The comparisons of the
  embedded digest, made when no expected digest is supplied, are insensitive to letter case
  only: the result is \<^verbatim>\<open>ok\<close> if and only if the embedded digest is not empty and, in
  lower case, equals the raw or the canonical digest, and an embedded digest with a
  \<^verbatim>\<open>0x\<close> prefix never matches.
\<close>

theorem digest_comparisons:
  "(is_hex h1 \<and> is_hex h2 \<and> toLowerCase h1 = toLowerCase h2 \<and>
      p1 \<in> set [[], ''0x'', ''0X''] \<and> p2 \<in> set [[], ''0x'', ''0X''] \<longrightarrow>
      normalise_expected (Some (p1 @ h1)) = toLowerCase h1 \<and>
      normalise_expected (Some (p2 @ h2)) = toLowerCase h1 \<and>
      verdict (verify_bytes E (Some (p1 @ h1)) u bytes) = verdict (verify_bytes E (Some (p2 @ h2)) u bytes)) \<and>
   (verify_bytes E e u bytes = Inr r \<and> normalise_expected e = [] \<and>
      opt_get (json r) ''sha256'' = Some (JStr s) \<longrightarrow>
      ok r = (s \<noteq> [] \<and> (toLowerCase s = sha256_file r \<or> toLowerCase s = sha256_canonical r)) \<and>
      (startsWith (toLowerCase s) ''0x'' \<longrightarrow> \<not> ok r \<and> mode r = []))"
proof -
  have A: "normalise_expected (Some (p1 @ h1)) = toLowerCase h1 \<and>
      normalise_expected (Some (p2 @ h2)) = toLowerCase h1 \<and>
      verdict (verify_bytes E (Some (p1 @ h1)) u bytes) = verdict (verify_bytes E (Some (p2 @ h2)) u bytes)"
    if a: "is_hex h1 \<and> is_hex h2 \<and> toLowerCase h1 = toLowerCase h2 \<and>
      p1 \<in> set [[], ''0x'', ''0X''] \<and> p2 \<in> set [[], ''0x'', ''0X'']"
  proof -
    have n1: "normalise_expected (Some (p1 @ h1)) = toLowerCase h1"
      using a normalise_hex [of h1] by auto
    have n2: "normalise_expected (Some (p2 @ h2)) = toLowerCase h1"
      using a normalise_hex [of h2] by auto
    have "verdict (verify_bytes E (Some (p1 @ h1)) u bytes)
      = verdict (verify_bytes E (Some (p2 @ h2)) u bytes)"
      using n1 n2 by (intro verify_bytes_expected_cong) simp
    with n1 n2 show ?thesis by simp
  qed
  have B: "ok r = (s \<noteq> [] \<and> (toLowerCase s = sha256_file r \<or> toLowerCase s = sha256_canonical r)) \<and>
      (startsWith (toLowerCase s) ''0x'' \<longrightarrow> \<not> ok r \<and> mode r = [])"
    if a: "verify_bytes E e u bytes = Inr r \<and> normalise_expected e = [] \<and>
      opt_get (json r) ''sha256'' = Some (JStr s)"
  proof -
    from verify_bytes_Inr [of E e u bytes r] a obtain j inFile where
      j: "json r = Some j" "j \<noteq> JNull" "embedded_digest j = Inr inFile"
      and f: "sha256_file r = toHex (sha256_digest E bytes)"
      and c: "sha256_canonical r =
        toHex (sha256_digest E (encode E (stableStringify (JSON_stringify E) (delete_member ''sha256'' j))))"
      and d: "(ok r, mode r) = decide [] inFile (sha256_file r) (sha256_canonical r)"
      by auto
    have g: "get j ''sha256'' = Some (JStr s)" using a j by (cases j) simp_all
    then have i: "inFile = (if s = [] then [] else toLowerCase s)"
      using j(3) by (auto simp: embedded_digest_def toLowerCase_def)
    have l: "(toLowerCase s = []) = (s = [])" by (simp add: toLowerCase_def)
    have okr: "ok r = (s \<noteq> [] \<and> (toLowerCase s = sha256_file r \<or> toLowerCase s = sha256_canonical r))"
      using d i l by (auto simp: decide_def split: if_splits)
    have "\<not> ok r \<and> mode r = []" if "startsWith (toLowerCase s) ''0x''"
    proof -
      have "CHR ''x'' \<in> set (toLowerCase s)" using that by (rule startsWith_0x_has_x)
      then have "toLowerCase s \<noteq> sha256_file r" "toLowerCase s \<noteq> sha256_canonical r"
        using toHex_no_x f c by metis+
      then show ?thesis using d i by (auto simp: decide_def split: if_splits)
    qed
    with okr show ?thesis by blast
  qed
  from A B show ?thesis by blast
qed

lemma verify_prefixed_none:
  "verify_bytes (example_env payload_prefixed registry_ok) None ''gateway'' (bytes_of payload_prefixed) =
     Inr \<lparr>json = Some (JObj [(''sha256'', JStr ''0x02AB'')]), ok = False, mode = [],
          sha256_onchain = None, sha256_expected = Some ''0x02ab'', sha256_file = ''13ab'',
          sha256_canonical = ''02ab'', url = ''gateway''\<rparr>"
  by (simp add: verify_bytes_def Let_def example_env_simps text_of_bytes_of example_parses
      example_not_html embedded_digest_def example_hashes
      example_hashes(5) [unfolded payload_empty_def] toLowerCase_def lower_char_def
      normalise_none decide_def)

text \<open>
  The expected digests 0X13AB and 13ab give the same verdict; the embedded digest 0x02AB
  does not match.
\<close>

theorem digest_comparisons_witness:
  "is_hex ''13AB'' \<and> is_hex ''13ab'' \<and> toLowerCase ''13AB'' = toLowerCase ''13ab'' \<and>
   normalise_expected (Some (''0X'' @ ''13AB'')) = ''13ab'' \<and>
   verdict (verify_bytes (example_env payload_prefixed registry_ok) (Some (''0X'' @ ''13AB''))
      ''gateway'' (bytes_of payload_prefixed)) =
   verdict (verify_bytes (example_env payload_prefixed registry_ok) (Some ([] @ ''13ab''))
      ''gateway'' (bytes_of payload_prefixed)) \<and>
   verdict (verify_bytes (example_env payload_prefixed registry_ok) (Some ([] @ ''13ab''))
      ''gateway'' (bytes_of payload_prefixed)) = Inr (True, ''on-chain-file-bytes'') \<and>
   verdict (verify_bytes (example_env payload_prefixed registry_ok) None
      ''gateway'' (bytes_of payload_prefixed)) = Inr (False, []) \<and>
   normalise_expected None = [] \<and>
   startsWith (toLowerCase ''0x02AB'') ''0x''"
proof -
  let ?r = "\<lparr>json = Some (JObj [(''sha256'', JStr ''0x02AB'')]), ok = False, mode = [],
          sha256_onchain = None, sha256_expected = Some ''0x02ab'', sha256_file = ''13ab'',
          sha256_canonical = ''02ab'', url = ''gateway''\<rparr>"
  have h: "is_hex ''13AB''" "is_hex ''13ab''" "toLowerCase ''13AB'' = toLowerCase ''13ab''"
    "toLowerCase ''13ab'' = ''13ab''" "startsWith (toLowerCase ''0x02AB'') ''0x''"
    by (simp_all add: is_hex_def toLowerCase_def lower_char_def startsWith_def)
  have v: "verdict (verify_bytes (example_env payload_prefixed registry_ok) (Some ([] @ ''13ab''))
      ''gateway'' (bytes_of payload_prefixed)) = Inr (True, ''on-chain-file-bytes'')"
    using normalise_hex(1) [OF h(2)] h(4) by (simp add: verify_prefixed decide_def)
  from digest_comparisons [of "''13AB''" "''13ab''" "''0X''" "[]"
      "example_env payload_prefixed registry_ok" "''gateway''" "bytes_of payload_prefixed"
      None ?r "''0x02AB''"]
  show ?thesis using h v by (simp add: verify_prefixed_none normalise_none verdict_simps)
qed

text \<open>
  Claim C2. Every digest comparison of the verifier should treat two spellings of one
  digest, with or without \<^verbatim>\<open>0x\<close> and in either case, as equal. For the embedded digest
  the program does not: with no expected digest, the payload that embeds 02AB is verified
  against the canonical digest 02ab, and the payload that embeds 0x02AB, the same bytes
  with the prefix, is not.
\<close>

theorem embedded_prefix_not_stripped:
  "verdict (fst (fetchAndVerifyByCID (example_env payload_bare registry_ok)
      (Some ''bafyexample'') None world0)) = Inr (True, ''canonical-minus-sha256'') \<and>
   verdict (fst (fetchAndVerifyByCID (example_env payload_prefixed registry_ok)
      (Some ''bafyexample'') None world0)) = Inr (False, [])"
  by (simp add: fetch_example verify_bare verify_prefixed verdict_simps normalise_none decide_def)


section \<open>Properties of the loader\<close>

lemma try_gateway_world:
  "calls (snd (try_gateway E e u w)) = calls w \<and> warnings (snd (try_gateway E e u w)) = warnings w"
  by (simp add: try_gateway_def Let_def split: sum.splits)

lemma gateway_loop_world:
  "calls (snd (gateway_loop E e us lastErr w)) = calls w \<and>
   warnings (snd (gateway_loop E e us lastErr w)) = warnings w"
proof (induction us arbitrary: lastErr w)
  case Nil
  then show ?case by simp
next
  case (Cons u us)
  obtain x w1 where t: "try_gateway E e u w = (x, w1)" by (cases "try_gateway E e u w")
  with try_gateway_world [of E e u w] have w1: "calls w1 = calls w" "warnings w1 = warnings w"
    by simp_all
  show ?case
  proof (cases x)
    case (Inl err)
    with t Cons.IH [of "Some err" w1] w1 show ?thesis by simp
  next
    case (Inr r)
    with t w1 show ?thesis by simp
  qed
qed

lemma fetch_world:
  "calls (snd (fetchAndVerifyByCID E p e w)) = calls w + 1 \<and>
   warnings (snd (fetchAndVerifyByCID E p e w)) = warnings w"
  using gateway_loop_world [of E e _ None "w\<lparr>calls := calls w + 1\<rparr>"]
  by (simp add: fetchAndVerifyByCID_def Let_def)

lemma attempts_spec:
  "1 \<le> attempt \<Longrightarrow> attempt \<le> 4 \<Longrightarrow>
   \<exists>res w'. attempts E i c h ts expected attempt lastErr w = (Inr res, w') \<and>
     calls w' \<le> calls w + (4 - attempt) \<and> calls w \<le> calls w' \<and>
     (attempt \<le> 3 \<longrightarrow> calls w < calls w') \<and>
     (res = None \<longrightarrow> calls w' = calls w + (4 - attempt) \<and>
        (\<exists>err. warnings w' = warnings w @ [(i, err)])) \<and>
     (\<forall>s. res = Some s \<longrightarrow> warnings w' = warnings w \<and> truthy (json s) \<and>
        cid s = Some c \<and> sha256File s = h \<and> timestamp s = ts)"
proof (induction E i c h ts expected attempt lastErr w rule: attempts.induct)
  case (1 E i c h ts expected attempt lastErr w)
  show ?case
  proof (cases "attempt \<le> 3")
    case False
    with "1.prems" have "attempt = 4" by simp
    then show ?thesis by (subst attempts.simps) simp
  next
    case True
    obtain x w1 where f: "fetchAndVerifyByCID E (Some c) expected w = (x, w1)"
      by (cases "fetchAndVerifyByCID E (Some c) expected w")
    with fetch_world [of E "Some c" expected w]
    have w1: "calls w1 = calls w + 1" "warnings w1 = warnings w" by simp_all
    show ?thesis
    proof (cases x)
      case (Inl e)
      from "1.IH"(1) [OF True f [symmetric] Inl] True
      obtain res w' where
        a: "attempts E i c h ts expected (attempt + 1) (Some e) w1 = (Inr res, w')"
        and b: "calls w' \<le> calls w1 + (4 - (attempt + 1))" "calls w1 \<le> calls w'"
          "res = None \<longrightarrow> calls w' = calls w1 + (4 - (attempt + 1)) \<and>
             (\<exists>err. warnings w' = warnings w1 @ [(i, err)])"
          "\<forall>s. res = Some s \<longrightarrow> warnings w' = warnings w1 \<and> truthy (json s) \<and>
             cid s = Some c \<and> sha256File s = h \<and> timestamp s = ts"
        by auto
      have "attempts E i c h ts expected attempt lastErr w = (Inr res, w')"
        using True f Inl a by (subst attempts.simps) simp
      then show ?thesis using b w1 True by auto
    next
      case (Inr r)
      show ?thesis
      proof (cases "truthy (json r)")
        case t: True
        have "attempts E i c h ts expected attempt lastErr w =
          (Inr (Some \<lparr>json = json r, cid = Some c, sha256File = h, timestamp = ts, verified = ok r\<rparr>), w1)"
          using True f Inr t by (subst attempts.simps) simp
        then show ?thesis using w1 t True by auto
      next
        case nt: False
        from "1.IH"(2) [OF True f [symmetric] Inr nt] True
        obtain res w' where
          a: "attempts E i c h ts expected (attempt + 1) lastErr w1 = (Inr res, w')"
          and b: "calls w' \<le> calls w1 + (4 - (attempt + 1))" "calls w1 \<le> calls w'"
            "res = None \<longrightarrow> calls w' = calls w1 + (4 - (attempt + 1)) \<and>
               (\<exists>err. warnings w' = warnings w1 @ [(i, err)])"
            "\<forall>s. res = Some s \<longrightarrow> warnings w' = warnings w1 \<and> truthy (json s) \<and>
               cid s = Some c \<and> sha256File s = h \<and> timestamp s = ts"
          by auto
        have "attempts E i c h ts expected attempt lastErr w = (Inr res, w')"
          using True f Inr nt a by (subst attempts.simps) simp
        then show ?thesis using b w1 True by auto
      qed
    qed
  qed
qed

lemma attempts_after_exception:
  assumes "fetchAndVerifyByCID E (Some c) expected w = (Inl e, w1)" and "attempt \<le> 2" and "1 \<le> attempt"
    and "attempts E i c h ts expected attempt lastErr w = (x, w')"
  shows "calls w + 2 \<le> calls w'"
proof -
  have "attempts E i c h ts expected attempt lastErr w
      = attempts E i c h ts expected (attempt + 1) (Some e) w1"
    using assms(1,2) by (subst attempts.simps) simp
  moreover from attempts_spec [of "attempt + 1" E i c h ts expected "Some e" w1] assms(2)
  obtain res w2 where "attempts E i c h ts expected (attempt + 1) (Some e) w1 = (Inr res, w2)"
    "calls w1 < calls w2" by auto
  moreover have "calls w1 = calls w + 1"
    using fetch_world [of E "Some c" expected w] assms(1) by simp
  ultimately show ?thesis using assms(4) by simp
qed

text \<open>
  When no call of \<^verbatim>\<open>fetchAndVerifyByCID\<close> yields a truthy payload, whatever the state it
  is made in, the attempts run out and \<^verbatim>\<open>loadSnapshot\<close> returns \<^verbatim>\<open>null\<close>.
\<close>

lemma attempts_exhaust:
  "(\<forall>w r. fst (fetchAndVerifyByCID E (Some c) expected w) = Inr r \<longrightarrow> \<not> truthy (json r)) \<Longrightarrow>
   fst (attempts E i c h ts expected attempt lastErr w) = Inr None"
proof (induction E i c h ts expected attempt lastErr w rule: attempts.induct)
  case (1 E i c h ts expected attempt lastErr w)
  show ?case
  proof (cases "attempt \<le> 3")
    case False
    then show ?thesis by (subst attempts.simps) simp
  next
    case True
    obtain x w1 where f: "fetchAndVerifyByCID E (Some c) expected w = (x, w1)"
      by (cases "fetchAndVerifyByCID E (Some c) expected w")
    show ?thesis
    proof (cases x)
      case (Inl e)
      from "1.IH"(1) [OF True f [symmetric] Inl "1.prems"] show ?thesis
        using True f Inl by (subst attempts.simps) simp
    next
      case (Inr r)
      have nt: "\<not> truthy (json r)" using "1.prems" f Inr by (metis fst_conv)
      from "1.IH"(2) [OF True f [symmetric] Inr nt "1.prems"] show ?thesis
        using True f Inr nt by (subst attempts.simps) simp
    qed
  qed
qed

lemma loadSnapshot_exhaust:
  assumes "getSnapshotByIndex E i = Inr (c, h, ts)"
    and "\<forall>w r. fst (fetchAndVerifyByCID E (Some c) (if isZeroHash h then None else Some h) w) = Inr r
           \<longrightarrow> \<not> truthy (json r)"
  shows "fst (loadSnapshot E i w) = Inr None"
  using attempts_exhaust [OF assms(2)] assms(1) by (simp add: loadSnapshot_def Let_def)

text \<open>
  Claim C6, amended. An exception of the registry read \<^verbatim>\<open>getSnapshotByIndex\<close>, which
  stands before the \<^verbatim>\<open>try\<close>, leaves \<^verbatim>\<open>loadSnapshot\<close> as it is, with no attempt made and
  nothing logged. Once the descriptor is read, \<^verbatim>\<open>loadSnapshot\<close> returns without an
  exception after at least one and at most three calls of \<^verbatim>\<open>fetchAndVerifyByCID\<close>; it
  returns \<^verbatim>\<open>null\<close> only after all three calls, each exception or empty payload having
  led to the next attempt (an exception of the first attempt is followed by a second
  call), and then it has logged one warning for the index; a snapshot it returns has a
  truthy payload and the descriptor's fields, and nothing is logged.
\<close>

theorem loader_absorbs_errors:
  "(getSnapshotByIndex E i = Inl e \<longrightarrow> loadSnapshot E i w = (Inl e, w)) \<and>
   (getSnapshotByIndex E i = Inr (c, h, ts) \<longrightarrow>
     (\<exists>res w'. loadSnapshot E i w = (Inr res, w') \<and>
        calls w < calls w' \<and> calls w' \<le> calls w + 3 \<and>
        (\<forall>x. fst (fetchAndVerifyByCID E (Some c) (if isZeroHash h then None else Some h) w) = Inl x
           \<longrightarrow> calls w + 2 \<le> calls w') \<and>
        (res = None \<longrightarrow> calls w' = calls w + 3 \<and> (\<exists>err. warnings w' = warnings w @ [(i, err)])) \<and>
        (\<forall>s. res = Some s \<longrightarrow> warnings w' = warnings w \<and> truthy (json s) \<and>
           cid s = Some c \<and> sha256File s = h \<and> timestamp s = ts)))"
proof (intro conjI impI)
  assume "getSnapshotByIndex E i = Inl e"
  then show "loadSnapshot E i w = (Inl e, w)" by (simp add: loadSnapshot_def)
next
  assume g: "getSnapshotByIndex E i = Inr (c, h, ts)"
  let ?expected = "if isZeroHash h then None else Some h"
  have l: "loadSnapshot E i w = attempts E i c h ts ?expected 1 None w"
    using g by (simp add: loadSnapshot_def Let_def)
  from attempts_spec [of 1 E i c h ts ?expected None w]
  obtain res w' where a: "attempts E i c h ts ?expected 1 None w = (Inr res, w')"
    and b: "calls w' \<le> calls w + 3" "calls w < calls w'"
    "res = None \<longrightarrow> calls w' = calls w + 3 \<and> (\<exists>err. warnings w' = warnings w @ [(i, err)])"
    "\<forall>s. res = Some s \<longrightarrow> warnings w' = warnings w \<and> truthy (json s) \<and>
           cid s = Some c \<and> sha256File s = h \<and> timestamp s = ts"
    by auto
  have c: "\<forall>x. fst (fetchAndVerifyByCID E (Some c) ?expected w) = Inl x \<longrightarrow> calls w + 2 \<le> calls w'"
  proof (intro allI impI)
    fix x assume "fst (fetchAndVerifyByCID E (Some c) ?expected w) = Inl x"
    then obtain w1 where "fetchAndVerifyByCID E (Some c) ?expected w = (Inl x, w1)"
      by (cases "fetchAndVerifyByCID E (Some c) ?expected w") simp
    from attempts_after_exception [OF this _ _ a] show "calls w + 2 \<le> calls w'" by simp
  qed
  from a b c show "\<exists>res w'. loadSnapshot E i w = (Inr res, w') \<and>
        calls w < calls w' \<and> calls w' \<le> calls w + 3 \<and>
        (\<forall>x. fst (fetchAndVerifyByCID E (Some c) ?expected w) = Inl x \<longrightarrow> calls w + 2 \<le> calls w') \<and>
        (res = None \<longrightarrow> calls w' = calls w + 3 \<and> (\<exists>err. warnings w' = warnings w @ [(i, err)])) \<and>
        (\<forall>s. res = Some s \<longrightarrow> warnings w' = warnings w \<and> truthy (json s) \<and>
           cid s = Some c \<and> sha256File s = h \<and> timestamp s = ts)"
    unfolding l by blast
qed

lemma offline_env_simps:
  "fetchWithTimeout (offline_env reg) n u = Inl TypeError"
  "getSnapshot (offline_env reg) = reg"
  by (simp_all add: offline_env_def)

lemma offline_fetch:
  "fetchAndVerifyByCID (offline_env reg) (Some ''bafyexample'') e w =
     (Inl TypeError, w\<lparr>fetches := fetches w + 3, calls := calls w + 1\<rparr>)"
  by (simp add: fetchAndVerifyByCID_def Let_def gateways_def try_gateway_def offline_env_simps)

lemma offline_registry_ok:
  "getSnapshotByIndex (offline_env registry_ok) 7 = Inr (''bafyexample'', ''0x02ab'', 1700000000000)"
  by (simp add: getSnapshotByIndex_def offline_env_simps registry_ok_def toLowerCase_def lower_char_def)

text \<open>
  Scenario D: no gateway answers; three attempts of three fetches each, then \<^verbatim>\<open>null\<close> and
  one warning.
\<close>

theorem loader_absorbs_errors_witness:
  "getSnapshotByIndex (offline_env registry_ok) 7 = Inr (''bafyexample'', ''0x02ab'', 1700000000000) \<and>
   loadSnapshot (offline_env registry_ok) 7 world0 =
     (Inr None, \<lparr>fetches = 9, calls = 3, warnings = [(7, Some TypeError)]\<rparr>) \<and>
   fst (fetchAndVerifyByCID (offline_env registry_ok) (Some ''bafyexample'') (Some ''0x02ab'') world0)
     = Inl TypeError \<and>
   getSnapshotByIndex (offline_env registry_down) 7 = Inl (Error ''could not detect network'')"
proof -
  have l: "loadSnapshot (offline_env registry_ok) 7 world0 =
     (Inr None, \<lparr>fetches = 9, calls = 3, warnings = [(7, Some TypeError)]\<rparr>)"
    by (simp add: loadSnapshot_def offline_registry_ok Let_def attempts.simps offline_fetch world0_def)
  have d: "getSnapshotByIndex (offline_env registry_down) 7 = Inl (Error ''could not detect network'')"
    by (simp add: getSnapshotByIndex_def offline_env_simps registry_down_def)
  from loader_absorbs_errors [of "offline_env registry_ok" 7 _ world0 "''bafyexample''" "''0x02ab''"
      1700000000000]
  show ?thesis using offline_registry_ok l d by (simp add: offline_fetch)
qed

text \<open>
  Claim C6 as stated fails: when the registry read throws, no attempt yields a payload,
  and \<^verbatim>\<open>loadSnapshot\<close> throws instead of returning \<^verbatim>\<open>null\<close>; nothing is logged.
\<close>

theorem loader_absorbs_errors_counterexample:
  "loadSnapshot (offline_env registry_down) 7 world0 = (Inl (Error ''could not detect network''), world0) \<and>
   calls world0 = 0 \<and> warnings world0 = []"
  by (simp add: loadSnapshot_def getSnapshotByIndex_def offline_env_simps registry_down_def world0_def)


section \<open>The input of the analytics\<close>

lemma map_insort_key:
  "map f (insort_key (\<lambda>r. k (f r)) x xs) = insort_key k (f x) (map f xs)"
  by (induction xs) simp_all

lemma map_sort_key: "map f (sort_key (\<lambda>r. k (f r)) xs) = sort_key k (map f xs)"
  by (induction xs) (simp_all add: map_insort_key)

text \<open>
  Claim C10. For a valid reference to the input array, \<open>computePerformance\<close> leaves that
  array with the same references in the same order and leaves every object as it was; all
  arrays of the store before the call are unchanged, and one array is new: the sorted copy
  that the result returns as \<^verbatim>\<open>series\<close>. The result is that of \<open>computePerformance\<close> on the
  points of the input.
\<close>

theorem input_not_mutated:
  assumes "a < length (arrays h)"
  shows "\<exists>s P h'. computePerformance_store (Some a) h = ((s, P), h') \<and>
    arrays h' ! a = arrays h ! a \<and> objects h' = objects h \<and> deref h' a = deref h a \<and>
    take (length (arrays h)) (arrays h') = arrays h \<and>
    s = length (arrays h) \<and> length (arrays h') = Suc (length (arrays h)) \<and>
    P = computePerformance (deref h a) \<and> deref h' s = series P"
proof (cases "arrays h ! a = []")
  case True
  then show ?thesis using assms
    by (simp add: computePerformance_store_def array_new_def deref_def computePerformance_def nth_append)
next
  case False
  let ?refs = "arrays h ! a"
  let ?s = "length (arrays h)"
  let ?h1 = "h\<lparr>arrays := arrays h @ [?refs]\<rparr>"
  let ?h2 = "array_sort ?s ?h1"
  have c: "computePerformance_store (Some a) h = ((?s, analyse (deref ?h2 ?s)), ?h2)"
    using False by (simp add: computePerformance_store_def array_new_def Let_def)
  have arr: "arrays ?h2 = arrays h @ [sort_key (\<lambda>r. date (objects h r)) ?refs]"
    by (simp add: array_sort_def)
  have d: "deref ?h2 ?s = sort_by_date (deref h a)"
    by (simp add: deref_def arr sort_by_date_def map_sort_key array_sort_def)
  have ne: "deref h a \<noteq> []" using False by (simp add: deref_def)
  have P: "analyse (deref ?h2 ?s) = computePerformance (deref h a)"
    using ne by (simp add: d computePerformance_def)
  have "arrays ?h2 ! a = arrays h ! a" using assms by (simp add: arr nth_append)
  moreover have "objects ?h2 = objects h" by (simp add: array_sort_def)
  moreover have "deref ?h2 a = deref h a" using assms by (simp add: deref_def arr nth_append array_sort_def)
  moreover have "take (length (arrays h)) (arrays ?h2) = arrays h" by (simp add: arr)
  moreover have "length (arrays ?h2) = Suc (length (arrays h))" by (simp add: arr)
  moreover have "deref ?h2 ?s = series (computePerformance (deref h a))"
    using ne by (simp add: d computePerformance_def analyse_fields)
  ultimately show ?thesis using c P by simp
qed

lemma store_A_deref: "deref store_A 0 = scenario_A"
  by (simp add: deref_def store_A_def scenario_A_def)

text \<open>
  Scenario A out of order: after the call the input array still reads 0, 1, 2 and the new
  array is sorted; sorting the input array itself would have reordered it.
\<close>

theorem input_not_mutated_witness:
  "0 < length (arrays store_A) \<and>
   arrays (snd (computePerformance_store (Some 0) store_A)) = [[0, 1, 2], [1, 0, 2]] \<and>
   deref (snd (computePerformance_store (Some 0) store_A)) 0 = scenario_A \<and>
   arrays (array_sort 0 store_A) = [[1, 0, 2]]"
proof -
  have l: "0 < length (arrays store_A)" by (simp add: store_A_def)
  have s: "arrays (array_sort 0 store_A) = [[1, 0, 2]]"
    by (simp add: array_sort_def store_A_def scenario_A_def)
  have a: "arrays (snd (computePerformance_store (Some 0) store_A)) = [[0, 1, 2], [1, 0, 2]]"
    by (simp add: computePerformance_store_def array_new_def array_sort_def store_A_def scenario_A_def
        Let_def)
  from input_not_mutated [OF l] show ?thesis
    using l s a by (auto simp: store_A_deref)
qed


end
